theory Spec2Isabelle
  imports Main "HOL-Library.List_Lexorder" "HOL-Library.Char_ord" "HOL-Library.Finite_Map"
begin

section \<open>Common utilities of the OpenColorIO configuration for ACES\<close>

text \<open>
  A shallow embedding of \<^verbatim>\<open>opencolorio_config_aces/utilities/common.py\<close>.
  Python sequences (tuples, lists, strings) are HOL lists, strings are \<open>string\<close>
  (so a character is one byte: the model is exact on ASCII text), Python integers are
  \<open>int\<close>, and every exception the code or the standard library it calls can raise is a
  value of \<open>error\<close>, returned on the left of a sum.
\<close>

subsection \<open>Exceptions\<close>

datatype error =
    TypeError
  | ValueError
  | KeyError string
  | ImportError string
  | RecursionError

subsection \<open>Python objects as seen by \<^verbatim>\<open>first_item\<close>\<close>

text \<open>
  \<^verbatim>\<open>first_item\<close> asks two things of its argument: its truth value
  (\<^verbatim>\<open>not iterable\<close>) and the items its iterator yields
  (\<^verbatim>\<open>for item in iterable\<close>). \<open>yields\<close> is \<open>None\<close> for an object that has no
  iterator: the \<^verbatim>\<open>for\<close> statement raises \<^verbatim>\<open>TypeError\<close> on it.
\<close>

record 'a iterable =
  truthy :: bool
  yields :: "'a list option"

text \<open>A tuple, a list or a string: false exactly when empty, yields its elements.\<close>

definition sequence :: "'a list \<Rightarrow> 'a iterable" where
  "sequence xs = \<lparr>truthy = (xs \<noteq> []), yields = Some xs\<rparr>"

text \<open>A generator object is always true; it yields the items it has left.\<close>

definition generator :: "'a list \<Rightarrow> 'a iterable" where
  "generator xs = \<lparr>truthy = True, yields = Some xs\<rparr>"

text \<open>\<^verbatim>\<open>None\<close> is false and has no iterator.\<close>

definition none_object :: "'a iterable" where
  "none_object = \<lparr>truthy = False, yields = None\<rparr>"

subsection \<open>\<^verbatim>\<open>first_item\<close>\<close>

text \<open>
  The result is a Python object or \<^verbatim>\<open>None\<close>: \<open>Inr None\<close> is the \<^verbatim>\<open>None\<close> a
  function returns when its body ends without a \<^verbatim>\<open>return\<close>; the default is an
  object or \<^verbatim>\<open>None\<close> as well.
\<close>

definition first_item :: "'a iterable \<Rightarrow> 'a option \<Rightarrow> error + 'a option" where
  "first_item iterable dflt =
     (if \<not> truthy iterable then Inr dflt
      else case yields iterable of
             None \<Rightarrow> Inl TypeError
           | Some [] \<Rightarrow> Inr None
           | Some (item # _) \<Rightarrow> Inr (Some item))"

subsection \<open>\<^verbatim>\<open>common_ancestor\<close>\<close>

text \<open>
  \<^verbatim>\<open>zip(*args)\<close> yields one tuple per position, up to the length of the shortest
  argument, and nothing when there is no argument.
\<close>

fun shortest :: "'a list list \<Rightarrow> nat" where
  "shortest [] = 0"
| "shortest [a] = length a"
| "shortest (a # b # bs) = min (length a) (shortest (b # bs))"

definition zip_star :: "'a list list \<Rightarrow> 'a list list" where
  "zip_star args = map (\<lambda>i. map (\<lambda>a. a ! i) args) [0..<shortest args]"

text \<open>\<^verbatim>\<open>list.index\<close>: the first position holding an equal value, or \<^verbatim>\<open>ValueError\<close>.\<close>

fun index_of :: "'a list \<Rightarrow> 'a \<Rightarrow> error + nat" where
  "index_of [] x = Inl ValueError"
| "index_of (y # ys) x = (if y = x then Inr 0 else map_sum id Suc (index_of ys x))"

text \<open>
  \<^verbatim>\<open>min\<close> of a tuple of sequences: \<^verbatim>\<open>ValueError\<close> on the empty tuple, otherwise the
  first item that no later item is smaller than, sequences being compared
  lexicographically.
\<close>

fun py_min :: "'a::linorder list \<Rightarrow> error + 'a" where
  "py_min [] = Inl ValueError"
| "py_min (x # xs) = Inr (fold (\<lambda>y m. if y < m then y else m) xs x)"

text \<open>
  \<^verbatim>\<open>first_item\<close> may return \<^verbatim>\<open>None\<close>: slicing \<^verbatim>\<open>None\<close> raises \<^verbatim>\<open>TypeError\<close>, and
  \<^verbatim>\<open>array.index(None)\<close> raises \<^verbatim>\<open>ValueError\<close>, as no element of \<^verbatim>\<open>array\<close> is
  \<^verbatim>\<open>None\<close>. The slice \<^verbatim>\<open>[:k]\<close> keeps the first \<open>k\<close> elements.
\<close>

definition common_ancestor :: "'a::linorder list list \<Rightarrow> error + 'a list" where
  "common_ancestor args =
     (let array = map set (zip_star args);
          divergence = filter (\<lambda>i. card i > 1) array
      in if divergence \<noteq> [] then
           (case first_item (sequence args) None of
              Inl e \<Rightarrow> Inl e
            | Inr None \<Rightarrow> Inl TypeError
            | Inr (Some first) \<Rightarrow>
                (case first_item (sequence divergence) None of
                   Inl e \<Rightarrow> Inl e
                 | Inr None \<Rightarrow> Inl ValueError
                 | Inr (Some d) \<Rightarrow>
                     (case index_of array d of
                        Inl e \<Rightarrow> Inl e
                      | Inr k \<Rightarrow> Inr (take k first))))
         else py_min args)"

text \<open>
  Vocabulary for the claims about \<^verbatim>\<open>common_ancestor\<close>: the arguments agree at position
  \<open>i\<close> when they all hold the same element there.
\<close>

definition agree :: "'a list list \<Rightarrow> nat \<Rightarrow> bool" where
  "agree args i \<longleftrightarrow> (\<forall>a\<in>set args. \<forall>b\<in>set args. a ! i = b ! i)"

subsection \<open>\<^verbatim>\<open>paths_common_ancestor\<close>\<close>

text \<open>
  \<^verbatim>\<open>str.split(sep)\<close> for a separator of one character: the text between the
  separators, empty segments included, so the result is never empty.
\<close>

fun str_split :: "char \<Rightarrow> string \<Rightarrow> string list" where
  "str_split sep [] = [[]]"
| "str_split sep (c # cs) =
     (if c = sep then [] # str_split sep cs
      else (case str_split sep cs of
              [] \<Rightarrow> [[c]]
            | seg # segs \<Rightarrow> (c # seg) # segs))"

text \<open>\<^verbatim>\<open>sep.join(segments)\<close>.\<close>

fun str_join :: "string \<Rightarrow> string list \<Rightarrow> string" where
  "str_join sep [] = []"
| "str_join sep [s] = s"
| "str_join sep (s # t # ts) = s @ sep @ str_join sep (t # ts)"

text \<open>
  \<^verbatim>\<open>os.sep\<close> is the platform's separator, one character; it is a parameter of the
  model.
\<close>

definition paths_common_ancestor :: "char \<Rightarrow> string list \<Rightarrow> error + string" where
  "paths_common_ancestor os_sep args =
     (case common_ancestor (map (str_split os_sep) args) of
        Inl e \<Rightarrow> Inl e
      | Inr ancestor \<Rightarrow> Inr (str_join [os_sep] ancestor))"

subsection \<open>Optional packages: the probes and \<^verbatim>\<open>required\<close>\<close>

text \<open>
  What \<^verbatim>\<open>import m\<close> does is the environment's business: it succeeds or raises
  \<^verbatim>\<open>ImportError\<close> with a message.
\<close>

datatype import_outcome = Imported | ImportFailure string

type_synonym environment = "string \<Rightarrow> import_outcome"

definition is_colour_installed :: "environment \<Rightarrow> bool \<Rightarrow> error + bool" where
  "is_colour_installed env raise_exception =
     (case env ''colour'' of
        Imported \<Rightarrow> Inr True
      | ImportFailure error \<Rightarrow>
          if raise_exception then
            Inl (ImportError
              (''\"Colour\" related API features are not available: \"'' @ error @ ''\".''))
          else Inr False)"

definition is_jsonpickle_installed :: "environment \<Rightarrow> bool \<Rightarrow> error + bool" where
  "is_jsonpickle_installed env raise_exception =
     (case env ''jsonpickle'' of
        Imported \<Rightarrow> Inr True
      | ImportFailure error \<Rightarrow>
          if raise_exception then
            Inl (ImportError
              (''\"jsonpickle\" related API features, e.g. serialization, are not available: \"''
               @ error @ ''\".''))
          else Inr False)"

definition is_networkx_installed :: "environment \<Rightarrow> bool \<Rightarrow> error + bool" where
  "is_networkx_installed env raise_exception =
     (case env ''networkx'' of
        Imported \<Rightarrow> Inr True
      | ImportFailure error \<Rightarrow>
          if raise_exception then
            Inl (ImportError
              (''\"NetworkX\" related API features are not available: \"'' @ error @ ''\".''))
          else Inr False)"

definition REQUIREMENTS_TO_CALLABLE ::
    "string \<rightharpoonup> (environment \<Rightarrow> bool \<Rightarrow> error + bool)" where
  "REQUIREMENTS_TO_CALLABLE =
     [''Colour'' \<mapsto> is_colour_installed,
      ''jsonpickle'' \<mapsto> is_jsonpickle_installed,
      ''NetworkX'' \<mapsto> is_networkx_installed]"

text \<open>
  The body of the loop of \<^verbatim>\<open>wrapped\<close>:
  \<^verbatim>\<open>REQUIREMENTS_TO_CALLABLE[requirement](raise_exception=True)\<close>. Subscripting the
  dictionary with a missing key raises \<^verbatim>\<open>KeyError\<close>.
\<close>

definition probe :: "environment \<Rightarrow> string \<Rightarrow> error + bool" where
  "probe env requirement =
     (case REQUIREMENTS_TO_CALLABLE requirement of
        None \<Rightarrow> Inl (KeyError requirement)
      | Some callable \<Rightarrow> callable env True)"

fun check_requirements :: "environment \<Rightarrow> string list \<Rightarrow> error + unit" where
  "check_requirements env [] = Inr ()"
| "check_requirements env (requirement # requirements) =
     (case probe env requirement of
        Inl e \<Rightarrow> Inl e
      | Inr _ \<Rightarrow> check_requirements env requirements)"

text \<open>
  The wrapped function runs in a world \<open>'w\<close> that it may change; it returns a result or
  raises. \<^verbatim>\<open>required(*requirements)(function)\<close> is the function \<^verbatim>\<open>wrapped\<close>.
\<close>

definition required ::
    "string list \<Rightarrow> ('args \<Rightarrow> 'w \<Rightarrow> (error + 'r) \<times> 'w) \<Rightarrow> environment \<Rightarrow>
     'args \<Rightarrow> 'w \<Rightarrow> (error + 'r) \<times> 'w" where
  "required requirements function env args w =
     (case check_requirements env requirements of
        Inl e \<Rightarrow> (Inl e, w)
      | Inr _ \<Rightarrow> function args w)"

subsection \<open>\<^verbatim>\<open>vivification\<close> and \<^verbatim>\<open>vivified_to_dict\<close>\<close>

text \<open>
  The Python objects these functions meet: a \<^verbatim>\<open>defaultdict\<close>, a plain \<^verbatim>\<open>dict\<close>, and
  anything else (\<open>Scalar\<close>). A dictionary holds each key once, so it is a finite map.
\<close>

datatype ('k, 'v) pyobj =
    Scalar 'v
  | DefaultDict "('k, ('k, 'v) pyobj) fmap"
  | Dict "('k, ('k, 'v) pyobj) fmap"

text \<open>\<^verbatim>\<open>defaultdict(vivification)\<close>: an empty \<^verbatim>\<open>defaultdict\<close>.\<close>

definition vivification :: "('k, 'v) pyobj" where
  "vivification = DefaultDict fmempty"

text \<open>
  The assignment statement \<^verbatim>\<open>obj[k1]...[kn] = value\<close>. Every subscript but the last is
  a read: on a \<^verbatim>\<open>defaultdict\<close> a missing key is first filled by the default factory,
  here \<^verbatim>\<open>vivification\<close>; on a \<^verbatim>\<open>dict\<close> it raises \<^verbatim>\<open>KeyError\<close>. The child object is
  shared with its parent, so the parent sees the assignment.
\<close>

fun setitem_path ::
    "(string, 'v) pyobj \<Rightarrow> string list \<Rightarrow> (string, 'v) pyobj \<Rightarrow> error + (string, 'v) pyobj" where
  "setitem_path obj [] v = Inr v"
| "setitem_path (Scalar x) (k # ks) v = Inl TypeError"
| "setitem_path (DefaultDict items) (k # ks) v =
     (let child = (case fmlookup items k of None \<Rightarrow> vivification | Some c \<Rightarrow> c)
      in case setitem_path child ks v of
           Inl e \<Rightarrow> Inl e
         | Inr child' \<Rightarrow> Inr (DefaultDict (fmupd k child' items)))"
| "setitem_path (Dict items) (k # ks) v =
     (case fmlookup items k of
        None \<Rightarrow> (if ks = [] then Inr (Dict (fmupd k v items)) else Inl (KeyError k))
      | Some child \<Rightarrow>
          (case setitem_path child ks v of
             Inl e \<Rightarrow> Inl e
           | Inr child' \<Rightarrow> Inr (Dict (fmupd k child' items))))"

text \<open>
  \<^verbatim>\<open>vivified_to_dict\<close>: a \<^verbatim>\<open>defaultdict\<close> becomes the \<^verbatim>\<open>dict\<close> of its converted
  values; anything else is returned as it is. The function only reads its argument
  (\<^verbatim>\<open>vivified.items()\<close>) and binds the new dictionary to its local name, so what it
  returns is a function of the argument's value. Objects as values first; the same
  function on a store of objects follows.
\<close>

primrec vivified_to_dict :: "('k, 'v) pyobj \<Rightarrow> ('k, 'v) pyobj" where
  "vivified_to_dict (Scalar v) = Scalar v"
| "vivified_to_dict (DefaultDict items) = Dict (fmmap vivified_to_dict items)"
| "vivified_to_dict (Dict items) = Dict items"

text \<open>
  Vocabulary for the claim: an object is plain when no \<^verbatim>\<open>defaultdict\<close> occurs in it; a
  vivified structure is built from \<^verbatim>\<open>defaultdict\<close> nodes over plain values.
\<close>

primrec plain :: "('k, 'v) pyobj \<Rightarrow> bool" where
  "plain (Scalar v) = True"
| "plain (DefaultDict items) = False"
| "plain (Dict items) = fmpred (\<lambda>_. id) (fmmap plain items)"

primrec vivified :: "('k, 'v) pyobj \<Rightarrow> bool" where
  "vivified (Scalar v) = True"
| "vivified (DefaultDict items) = fmpred (\<lambda>_. id) (fmmap vivified items)"
| "vivified (Dict items) = fmpred (\<lambda>_. id) (fmmap plain items)"

text \<open>
  The value found by following a path of keys, when every key on the path is present.
  Nothing is created on the way.
\<close>

fun lookup_path :: "('k, 'v) pyobj \<Rightarrow> 'k list \<Rightarrow> ('k, 'v) pyobj option" where
  "lookup_path obj [] = Some obj"
| "lookup_path (Scalar x) (key # keys) = None"
| "lookup_path (DefaultDict items) (key # keys) =
     (case fmlookup items key of None \<Rightarrow> None | Some child \<Rightarrow> lookup_path child keys)"
| "lookup_path (Dict items) (key # keys) =
     (case fmlookup items key of None \<Rightarrow> None | Some child \<Rightarrow> lookup_path child keys)"

text \<open>
  The same function on a store of objects, to say what it does to the objects that
  exist when it is called. An address is the identity of an object; a dictionary holds
  its items in insertion order, each value by its address; creating an object appends
  it to the store. \<open>depth\<close> is the number of nested calls the interpreter still
  allows: at \<open>0\<close> a call raises \<^verbatim>\<open>RecursionError\<close>.
\<close>

type_synonym addr = nat

datatype ('k, 'v) cell =
    ScalarCell 'v
  | DefaultDictCell "('k \<times> addr) list"
  | DictCell "('k \<times> addr) list"

type_synonym ('k, 'v) store = "('k, 'v) cell list"

definition cell_at :: "('k, 'v) store \<Rightarrow> addr \<Rightarrow> ('k, 'v) cell option" where
  "cell_at s a = (if a < length s then Some (s ! a) else None)"

text \<open>
  The dictionary comprehension
  \<^verbatim>\<open>{key: vivified_to_dict(value) for key, value in vivified.items()}\<close>: the items
  in order, each value converted by the call \<open>convert\<close> in the store the calls before it
  have left.
\<close>

fun convert_items ::
    "(('k, 'v) store \<Rightarrow> addr \<Rightarrow> (error + addr) \<times> ('k, 'v) store) \<Rightarrow> ('k, 'v) store \<Rightarrow>
     ('k \<times> addr) list \<Rightarrow> (error + ('k \<times> addr) list) \<times> ('k, 'v) store" where
  "convert_items convert s [] = (Inr [], s)"
| "convert_items convert s ((key, value) # rest) =
     (case convert s value of
        (Inl e, s1) \<Rightarrow> (Inl e, s1)
      | (Inr value', s1) \<Rightarrow>
          (case convert_items convert s1 rest of
             (Inl e, s2) \<Rightarrow> (Inl e, s2)
           | (Inr rest', s2) \<Rightarrow> (Inr ((key, value') # rest'), s2)))"

primrec vivified_to_dict_at ::
    "nat \<Rightarrow> ('k, 'v) store \<Rightarrow> addr \<Rightarrow> (error + addr) \<times> ('k, 'v) store" where
  "vivified_to_dict_at 0 s node = (Inl RecursionError, s)"
| "vivified_to_dict_at (Suc depth) s node =
     (case cell_at s node of
        Some (DefaultDictCell items) \<Rightarrow>
          (case convert_items (vivified_to_dict_at depth) s items of
             (Inl e, s1) \<Rightarrow> (Inl e, s1)
           | (Inr items', s1) \<Rightarrow> (Inr (length s1), s1 @ [DictCell items']))
      | _ \<Rightarrow> (Inr node, s))"

text \<open>
  Vocabulary for the claim: the object at an address of a store, read as a value. The
  keys of a dictionary are distinct.
\<close>

inductive holds :: "('k, 'v) store \<Rightarrow> addr \<Rightarrow> ('k, 'v) pyobj \<Rightarrow> bool" where
  holds_scalar:
    "cell_at s a = Some (ScalarCell x) \<Longrightarrow> holds s a (Scalar x)"
| holds_defaultdict:
    "cell_at s a = Some (DefaultDictCell items) \<Longrightarrow> distinct (map fst items) \<Longrightarrow>
     list_all2 (holds s) (map snd items) trees \<Longrightarrow>
     holds s a (DefaultDict (fmap_of_list (zip (map fst items) trees)))"
| holds_dict:
    "cell_at s a = Some (DictCell items) \<Longrightarrow> distinct (map fst items) \<Longrightarrow>
     list_all2 (holds s) (map snd items) trees \<Longrightarrow>
     holds s a (Dict (fmap_of_list (zip (map fst items) trees)))"

subsection \<open>\<^verbatim>\<open>multi_replace\<close>\<close>

text \<open>
  \<^verbatim>\<open>re.sub\<close> belongs to the standard library, so \<^verbatim>\<open>multi_replace\<close> takes it as a
  parameter: a function of the pattern, the replacement and the text that returns the
  new text or raises. \<^verbatim>\<open>patterns.items()\<close> is the list of the dictionary's pairs in
  insertion order.
\<close>

fun multi_replace ::
    "(string \<Rightarrow> string \<Rightarrow> string \<Rightarrow> 'e + string) \<Rightarrow> string \<Rightarrow> (string \<times> string) list \<Rightarrow>
     'e + string" where
  "multi_replace re_sub name [] = Inr name"
| "multi_replace re_sub name ((pattern, substitution) # patterns) =
     (case re_sub pattern substitution name of
        Inl e \<Rightarrow> Inl e
      | Inr name' \<Rightarrow> multi_replace re_sub name' patterns)"

text \<open>
  A model of \<^verbatim>\<open>re.sub\<close> on a fragment of the pattern language, enough for the
  docstring's example: a pattern is a sequence of items, each a literal character or
  \<^verbatim>\<open>\w\<close>, optionally followed by one \<^verbatim>\<open>+\<close> (greedy, one or more). Matching
  backtracks as Python's engine does: at each position the first match in priority order
  is taken, a repetition trying to go on before it stops. Anything else (the empty
  pattern, other special characters, a replacement containing a backslash) is outside
  the fragment: \<open>Inl ()\<close>. \<^verbatim>\<open>\w\<close> is the ASCII class.
\<close>

datatype atom = Lit char | Word

datatype item = One atom | Plus atom

definition word_char :: "char \<Rightarrow> bool" where
  "word_char c \<longleftrightarrow>
     (CHR ''a'' \<le> c \<and> c \<le> CHR ''z'') \<or> (CHR ''A'' \<le> c \<and> c \<le> CHR ''Z'') \<or>
     (CHR ''0'' \<le> c \<and> c \<le> CHR ''9'') \<or> c = CHR ''_''"

fun atom_matches :: "atom \<Rightarrow> char \<Rightarrow> bool" where
  "atom_matches (Lit l) c = (c = l)"
| "atom_matches Word c = word_char c"

definition special :: "char \<Rightarrow> bool" where
  "special c \<longleftrightarrow> c \<in> set ''.^$*+?{}[]|()'' \<or> c = CHR 0x5C"

fun parse_pattern :: "string \<Rightarrow> item list option" where
  "parse_pattern [] = Some []"
| "parse_pattern (c # cs) =
     (if c = CHR 0x5C then
        (case cs of
           [] \<Rightarrow> None
         | d # ds \<Rightarrow>
             if d \<noteq> CHR ''w'' then None
             else (case ds of
                     [] \<Rightarrow> Some [One Word]
                   | q # qs \<Rightarrow>
                       if q = CHR ''+'' then
                         (if qs \<noteq> [] \<and> hd qs \<in> set ''*+?{'' then None
                          else map_option ((#) (Plus Word)) (parse_pattern qs))
                       else map_option ((#) (One Word)) (parse_pattern ds)))
      else if special c then None
      else (case cs of
              [] \<Rightarrow> Some [One (Lit c)]
            | q # qs \<Rightarrow>
                if q = CHR ''+'' then
                  (if qs \<noteq> [] \<and> hd qs \<in> set ''*+?{'' then None
                   else map_option ((#) (Plus (Lit c))) (parse_pattern qs))
                else map_option ((#) (One (Lit c))) (parse_pattern cs)))"

text \<open>The length of the match of the items at the start of the text, if there is one.\<close>

fun match_items :: "item list \<Rightarrow> string \<Rightarrow> nat option" where
  "match_items [] s = Some 0"
| "match_items (One a # items) [] = None"
| "match_items (One a # items) (c # cs) =
     (if atom_matches a c then map_option Suc (match_items items cs) else None)"
| "match_items (Plus a # items) [] = None"
| "match_items (Plus a # items) (c # cs) =
     (if atom_matches a c then
        (case match_items (Plus a # items) cs of
           Some n \<Rightarrow> Some (Suc n)
         | None \<Rightarrow> map_option Suc (match_items items cs))
      else None)"

text \<open>
  Left to right: a match at the current position is replaced and the scan goes on
  after it; otherwise the character is copied.
\<close>

function sub_scan :: "item list \<Rightarrow> string \<Rightarrow> string \<Rightarrow> string" where
  "sub_scan items repl [] = []"
| "sub_scan items repl (c # cs) =
     (case match_items items (c # cs) of
        Some (Suc n) \<Rightarrow> repl @ sub_scan items repl (drop n cs)
      | _ \<Rightarrow> c # sub_scan items repl cs)"
  by pat_completeness auto
termination
  by (relation "measure (\<lambda>(items, repl, s). length s)") auto

definition re_sub :: "string \<Rightarrow> string \<Rightarrow> string \<Rightarrow> unit + string" where
  "re_sub pattern repl text =
     (case parse_pattern pattern of
        None \<Rightarrow> Inl ()
      | Some [] \<Rightarrow> Inl ()
      | Some items \<Rightarrow>
          if CHR 0x5C \<in> set repl then Inl () else Inr (sub_scan items repl text))"

subsection \<open>\<^verbatim>\<open>message_box\<close>\<close>

text \<open>\<^verbatim>\<open>s * n\<close> on a string: \<open>n\<close> copies, none when \<open>n\<close> is zero or negative.\<close>

definition str_mul :: "string \<Rightarrow> int \<Rightarrow> string" where
  "str_mul s n = concat (replicate (nat n) s)"

text \<open>
  \<^verbatim>\<open>str.expandtabs(tabsize)\<close>: a tab becomes the spaces that reach the next multiple
  of the tab size; the column restarts after a line feed or a carriage return.
\<close>

fun expandtabs_from :: "nat \<Rightarrow> nat \<Rightarrow> string \<Rightarrow> string" where
  "expandtabs_from tabsize column [] = []"
| "expandtabs_from tabsize column (c # cs) =
     (if c = CHR 0x09 then
        (if tabsize > 0 then
           replicate (tabsize - column mod tabsize) CHR '' ''
             @ expandtabs_from tabsize (column + (tabsize - column mod tabsize)) cs
         else expandtabs_from tabsize column cs)
      else c # expandtabs_from tabsize
                 (if c = CHR 0x0A \<or> c = CHR 0x0D then 0 else column + 1) cs)"

definition expandtabs :: "string \<Rightarrow> string" where
  "expandtabs s = expandtabs_from 8 0 s"

text \<open>
  The standard library's \<^verbatim>\<open>TextWrapper\<close>, as \<^verbatim>\<open>message_box\<close> configures it:
  \<^verbatim>\<open>break_long_words=False\<close>, \<^verbatim>\<open>replace_whitespace=False\<close>, the other options at
  their defaults (\<^verbatim>\<open>expand_tabs\<close>, \<^verbatim>\<open>drop_whitespace\<close>, no indent, no line limit).
  \<^verbatim>\<open>wrap\<close> expands the tabs, splits the text into chunks and fills the lines greedily.
  The splitting is done by a regular expression that has changed between Python
  versions, so it is a parameter, \<open>split\<close>, of the model; in every version the
  chunks are the pieces that are not empty, so the empty text has no chunk. What
  follows is \<^verbatim>\<open>_wrap_chunks\<close>.
\<close>

text \<open>\<^verbatim>\<open>chunk.strip() == ''\<close>: the chunk holds white space only.\<close>

definition is_space :: "char \<Rightarrow> bool" where
  "is_space c \<longleftrightarrow>
     (CHR 0x09 \<le> c \<and> c \<le> CHR 0x0D) \<or> (CHR 0x1C \<le> c \<and> c \<le> CHR 0x1F) \<or> c = CHR '' ''"

definition blank :: "string \<Rightarrow> bool" where
  "blank chunk \<longleftrightarrow> list_all is_space chunk"

text \<open>The inner loop: the chunks that still fit on the current line, and the rest.\<close>

fun take_fitting :: "int \<Rightarrow> int \<Rightarrow> string list \<Rightarrow> string list \<times> string list" where
  "take_fitting width cur_len [] = ([], [])"
| "take_fitting width cur_len (chunk # chunks) =
     (if cur_len + int (length chunk) \<le> width then
        (case take_fitting width (cur_len + int (length chunk)) chunks of
           (cur_line, rest) \<Rightarrow> (chunk # cur_line, rest))
      else ([], chunk # chunks))"

text \<open>
  The steps of one round of the outer loop. A chunk of white space at the start of a
  line is dropped, unless no line has been stored yet (\<open>started\<close> is false).
\<close>

definition drop_leading :: "bool \<Rightarrow> string list \<Rightarrow> string list" where
  "drop_leading started chunks =
     (case chunks of
        [] \<Rightarrow> []
      | first # others \<Rightarrow> if blank first \<and> started then others else chunks)"

text \<open>
  A chunk longer than the width is not broken (\<^verbatim>\<open>break_long_words=False\<close>): it is put
  on a line of its own when the current line is empty, and left for the next round
  otherwise.
\<close>

definition handle_long_word ::
    "int \<Rightarrow> string list \<times> string list \<Rightarrow> string list \<times> string list" where
  "handle_long_word width state =
     (case state of
        (cur_line, []) \<Rightarrow> (cur_line, [])
      | (cur_line, long # rest) \<Rightarrow>
          if int (length long) > width \<and> cur_line = [] then ([long], rest)
          else (cur_line, long # rest))"

text \<open>A chunk of white space at the end of the line is dropped.\<close>

definition drop_trailing :: "string list \<Rightarrow> string list" where
  "drop_trailing cur_line =
     (if cur_line \<noteq> [] \<and> blank (last cur_line) then butlast cur_line else cur_line)"

text \<open>One round: the chunks of the line it builds (none when it builds no line) and the
  chunks it leaves.\<close>

definition fill_line :: "int \<Rightarrow> bool \<Rightarrow> string list \<Rightarrow> string list \<times> string list" where
  "fill_line width started chunks =
     (case handle_long_word width (take_fitting width 0 (drop_leading started chunks)) of
        (cur_line, rest) \<Rightarrow> (drop_trailing cur_line, rest))"

lemma take_fitting_all:
  "take_fitting width n chunks = (line, rest) \<Longrightarrow>
   length rest \<le> length chunks \<and>
   (line \<noteq> [] \<longrightarrow> length rest < length chunks) \<and>
   (line = [] \<longrightarrow> chunks \<noteq> [] \<longrightarrow>
      rest = chunks \<and> width < n + int (length (hd chunks)))"
proof (induction chunks arbitrary: n line rest)
  case Nil
  then show ?case by simp
next
  case (Cons c cs)
  obtain l r where lr: "take_fitting width (n + int (length c)) cs = (l, r)"
    by (cases "take_fitting width (n + int (length c)) cs")
  from Cons.IH [OF lr] have "length r \<le> length cs" by simp
  with Cons.prems show ?case by (auto simp: lr split: if_splits)
qed

text \<open>Every round takes at least one chunk, so the outer loop ends.\<close>

lemma fill_line_shorter:
  assumes "chunks \<noteq> []"
  shows "length (snd (fill_line width started chunks)) < length chunks"
proof -
  obtain first others where c: "chunks = first # others"
    using assms by (cases chunks) auto
  let ?chunks1 = "drop_leading started chunks"
  obtain cur_line chunks2 where t: "take_fitting width 0 ?chunks1 = (cur_line, chunks2)"
    by (cases "take_fitting width 0 ?chunks1")
  note tf = take_fitting_all [OF t]
  let ?r = "handle_long_word width (cur_line, chunks2)"
  have snd: "snd (fill_line width started chunks) = snd ?r"
    by (simp add: fill_line_def t split: prod.splits)
  have le2: "length (snd ?r) \<le> length chunks2"
    by (auto simp: handle_long_word_def split: list.splits)
  show ?thesis
  proof (cases "blank first \<and> started")
    case True
    then have "length ?chunks1 < length chunks" by (simp add: drop_leading_def c)
    with tf le2 snd show ?thesis by simp
  next
    case False
    then have c1: "?chunks1 = chunks" by (auto simp: drop_leading_def c)
    show ?thesis
    proof (cases "cur_line = []")
      case True
      with tf c1 assms have "chunks2 = chunks" "width < int (length first)"
        by (simp_all add: c)
      then have "snd ?r = others" using True by (simp add: handle_long_word_def c)
      with snd show ?thesis by (simp add: c)
    next
      case False
      with tf c1 le2 snd show ?thesis by simp
    qed
  qed
qed

lemma fill_line_rest:
  "(cur_line, rest) = fill_line width started (chunk # chunks) \<Longrightarrow>
   length rest < Suc (length chunks)"
  using fill_line_shorter [of "chunk # chunks" width started]
  by (metis length_Cons list.discI snd_conv)

text \<open>
  The outer loop of \<^verbatim>\<open>_wrap_chunks\<close>: a round's chunks, joined, are stored as a line
  when there are any.
\<close>

function wrap_loop :: "int \<Rightarrow> string list \<Rightarrow> string list \<Rightarrow> string list" where
  "wrap_loop width [] lines = lines"
| "wrap_loop width (chunk # chunks) lines =
     (case fill_line width (lines \<noteq> []) (chunk # chunks) of
        (cur_line, rest) \<Rightarrow>
          wrap_loop width rest (if cur_line \<noteq> [] then lines @ [concat cur_line] else lines))"
  by pat_completeness auto
termination
  by (relation "measure (\<lambda>(width, chunks, lines). length chunks)")
     (auto dest: fill_line_rest)

text \<open>\<^verbatim>\<open>_wrap_chunks\<close> refuses a width that is not positive, whatever the chunks.\<close>

definition wrap_chunks :: "int \<Rightarrow> string list \<Rightarrow> error + string list" where
  "wrap_chunks width chunks =
     (if width \<le> 0 then Inl ValueError else Inr (wrap_loop width chunks []))"

definition wrap :: "(string \<Rightarrow> string list) \<Rightarrow> int \<Rightarrow> string \<Rightarrow> error + string list" where
  "wrap split width text = wrap_chunks width (split (expandtabs text))"

text \<open>
  A splitting function for the examples: the runs of white space and the runs of other
  characters, in order. Every version of the library splits at least there; within a
  word the library also splits after some hyphens and around dashes.
\<close>

definition is_whitespace :: "char \<Rightarrow> bool" where
  "is_whitespace c \<longleftrightarrow> c \<in> {CHR 0x09, CHR 0x0A, CHR 0x0B, CHR 0x0C, CHR 0x0D, CHR '' ''}"

fun split_runs :: "string \<Rightarrow> string list" where
  "split_runs [] = []"
| "split_runs (c # cs) =
     (case split_runs cs of
        [] \<Rightarrow> [[c]]
      | [] # chunks \<Rightarrow> [c] # chunks
      | (d # ds) # chunks \<Rightarrow>
          if is_whitespace c = is_whitespace d then (c # d # ds) # chunks
          else [c] # (d # ds) # chunks)"

text \<open>
  The list comprehension over the lines of the message: the first \<^verbatim>\<open>wrap\<close> that
  raises ends it.
\<close>

fun wrap_each :: "(string \<Rightarrow> string list) \<Rightarrow> int \<Rightarrow> string list \<Rightarrow> error + string list list" where
  "wrap_each split width [] = Inr []"
| "wrap_each split width (line # lines) =
     (case wrap split width line of
        Inl e \<Rightarrow> Inl e
      | Inr wrapped \<Rightarrow>
          (case wrap_each split width lines of
             Inl e \<Rightarrow> Inl e
           | Inr rest \<Rightarrow> Inr (wrapped # rest)))"

text \<open>The nested function \<^verbatim>\<open>inner\<close> of \<^verbatim>\<open>message_box\<close>.\<close>

definition inner :: "int \<Rightarrow> int \<Rightarrow> string \<Rightarrow> string" where
  "inner width padding text =
     ''*'' @ str_mul '' '' padding @ text
       @ str_mul '' '' (width - int (length text) - padding * 2 - 2)
       @ str_mul '' '' padding @ ''*''"

text \<open>
  \<^verbatim>\<open>chain(*lines)\<close> iterates over every element of \<^verbatim>\<open>lines\<close>: over the wrapped lines
  of a list, and over the characters of the string \<^verbatim>\<open>" "\<close> that stands for an empty
  list.
\<close>

definition chained :: "string list list \<Rightarrow> string list" where
  "chained lines =
     concat (map (\<lambda>line. if length line = 0 then map (\<lambda>c. [c]) '' '' else line) lines)"

text \<open>
  \<^verbatim>\<open>print_callable\<close> consumes a line and changes the output \<open>'out\<close>. The result is
  what \<^verbatim>\<open>message_box\<close> returns or raises, with the output as it is then.
\<close>

definition message_box ::
    "(string \<Rightarrow> string list) \<Rightarrow> string \<Rightarrow> int \<Rightarrow> int \<Rightarrow> (string \<Rightarrow> 'out \<Rightarrow> 'out) \<Rightarrow> 'out \<Rightarrow>
     (error + bool) \<times> 'out" where
  "message_box split message width padding print_callable out =
     (let ideal_width = width - padding * 2 - 2;
          out1 = print_callable (str_mul ''='' width) out;
          out2 = print_callable (inner width padding '''') out1
      in case wrap_each split ideal_width (str_split CHR 0x0A message) of
           Inl e \<Rightarrow> (Inl e, out2)
         | Inr lines \<Rightarrow>
             (let out3 = fold (\<lambda>line. print_callable (inner width padding (expandtabs line)))
                           (chained lines) out2;
                  out4 = print_callable (inner width padding '''') out3;
                  out5 = print_callable (str_mul ''='' width) out4
              in (Inr True, out5)))"

text \<open>The default \<^verbatim>\<open>print\<close>, with the lines printed so far as the output.\<close>

definition print :: "string \<Rightarrow> string list \<Rightarrow> string list" where
  "print line out = out @ [line]"

section \<open>Properties\<close>

subsection \<open>\<^verbatim>\<open>first_item\<close>\<close>

lemma first_item_sequence:
  "first_item (sequence xs) d = Inr (case xs of [] \<Rightarrow> d | x # _ \<Rightarrow> Some x)"
  by (simp add: first_item_def sequence_def split: list.splits)

lemma first_item_hd: "xs \<noteq> [] \<Longrightarrow> first_item (sequence xs) d = Inr (Some (hd xs))"
  by (cases xs) (simp_all add: first_item_sequence)

text \<open>
  Claim C10. \<^verbatim>\<open>first_item\<close> returns the default for every false argument (an empty
  list or string, \<^verbatim>\<open>None\<close>); for a true argument whose iterator yields nothing (an
  exhausted generator) it returns \<^verbatim>\<open>None\<close>, whatever the default; for a true argument
  that yields at least one item it returns the first item.
\<close>

theorem first_item_cases:
  "(\<not> truthy it \<longrightarrow> first_item it d = Inr d) \<and>
   (truthy it \<and> yields it = Some [] \<longrightarrow> first_item it d = Inr None) \<and>
   (truthy it \<and> yields it = Some (x # xs) \<longrightarrow> first_item it d = Inr (Some x)) \<and>
   first_item (sequence []) d = Inr d \<and>
   first_item none_object d = Inr d \<and>
   first_item (generator []) d = Inr None"
  by (simp add: first_item_def sequence_def none_object_def generator_def)

theorem first_item_cases_witness:
  "\<not> truthy (sequence ([] :: nat list)) \<and>
   first_item (sequence []) (Some (7::nat)) = Inr (Some 7) \<and>
   truthy (generator ([] :: nat list)) \<and> yields (generator ([] :: nat list)) = Some [] \<and>
   first_item (generator []) (Some (7::nat)) = Inr None \<and>
   truthy (generator [1::nat, 2]) \<and> yields (generator [1::nat, 2]) = Some (1 # [2]) \<and>
   first_item (generator [1, 2]) (Some (7::nat)) = Inr (Some 1)"
proof -
  have s: "\<not> truthy (sequence ([] :: nat list))"
    by (simp add: sequence_def)
  have g: "truthy (generator ([] :: nat list)) \<and> yields (generator ([] :: nat list)) = Some []"
    by (simp add: generator_def)
  have h: "truthy (generator [1::nat, 2]) \<and> yields (generator [1::nat, 2]) = Some (1 # [2])"
    by (simp add: generator_def)
  from s first_item_cases [of "sequence []" "Some (7::nat)" 0 "[]"]
  have a: "first_item (sequence []) (Some (7::nat)) = Inr (Some 7)" by blast
  from g first_item_cases [of "generator []" "Some (7::nat)" 0 "[]"]
  have b: "first_item (generator []) (Some (7::nat)) = Inr None" by blast
  from h first_item_cases [of "generator [1, 2]" "Some (7::nat)" 1 "[2]"]
  have c: "first_item (generator [1, 2]) (Some (7::nat)) = Inr (Some 1)" by blast
  from s g h a b c show ?thesis by blast
qed

subsection \<open>\<^verbatim>\<open>common_ancestor\<close>\<close>

lemma length_zip_star: "length (zip_star args) = shortest args"
  by (simp add: zip_star_def)

lemma nth_zip_star: "i < shortest args \<Longrightarrow> zip_star args ! i = map (\<lambda>a. a ! i) args"
  by (simp add: zip_star_def)

text \<open>
  \<^verbatim>\<open>array.index(first_item(divergence))\<close> is the position of the first element of
  \<^verbatim>\<open>array\<close> that passes the filter: no earlier element can be equal to it.
\<close>

lemma index_of_first:
  "filter P xs \<noteq> [] \<Longrightarrow>
   index_of xs (hd (filter P xs)) = Inr (length (takeWhile (\<lambda>x. \<not> P x) xs))"
proof (induction xs)
  case Nil
  then show ?case by simp
next
  case (Cons y ys)
  show ?case
  proof (cases "P y")
    case True
    then show ?thesis by simp
  next
    case False
    with Cons.prems have ne: "filter P ys \<noteq> []" by simp
    then have "hd (filter P ys) \<in> set (filter P ys)" by (rule hd_in_set)
    then have "P (hd (filter P ys))" by simp
    with False have "y \<noteq> hd (filter P ys)" by auto
    with False Cons.IH [OF ne] show ?thesis by simp
  qed
qed

lemma card_gt1_iff: "finite S \<Longrightarrow> 1 < card S \<longleftrightarrow> (\<exists>x\<in>S. \<exists>y\<in>S. x \<noteq> y)"
  by (metis One_nat_def card_le_Suc0_iff_eq not_less)

lemma py_min_Min: "py_min args = Inr (Min (set args))" if "args \<noteq> []"
proof (cases args)
  case Nil
  with that show ?thesis by simp
next
  case (Cons x xs)
  have "(\<lambda>y m. if y < m then y else m) = (min :: 'a \<Rightarrow> 'a \<Rightarrow> 'a)"
    by (auto simp: fun_eq_iff min_def)
  moreover have "Min (set (x # xs)) = fold min xs x" by (rule Min.set_eq_fold)
  ultimately show ?thesis unfolding Cons by (simp del: set_simps)
qed

lemma array_nth:
  assumes "i < shortest args"
  shows "map set (zip_star args) ! i = (\<lambda>a. a ! i) ` set args"
  using assms by (simp add: length_zip_star nth_zip_star)

lemma diverges_iff:
  assumes "i < shortest args"
  shows "1 < card (map set (zip_star args) ! i) \<longleftrightarrow> \<not> agree args i"
proof -
  have "finite ((\<lambda>a. a ! i) ` set args)" by simp
  then show ?thesis
    unfolding array_nth [OF assms] agree_def by (subst card_gt1_iff) auto
qed

lemma divergence_Nil_iff:
  "filter (\<lambda>s. 1 < card s) (map set (zip_star args)) = [] \<longleftrightarrow>
   (\<forall>i<shortest args. agree args i)"
proof -
  let ?array = "map set (zip_star args)"
  have len: "length ?array = shortest args" by (simp add: length_zip_star)
  have "filter (\<lambda>s. 1 < card s) ?array = [] \<longleftrightarrow>
        (\<forall>i<length ?array. \<not> 1 < card (?array ! i))"
    unfolding filter_empty_conv all_set_conv_all_nth ..
  also have "\<dots> \<longleftrightarrow> (\<forall>i<shortest args. agree args i)"
    unfolding len using diverges_iff [of _ args] by blast
  finally show ?thesis .
qed

lemma common_ancestor_diverging:
  assumes "i < shortest args" and "\<not> agree args i"
  shows "\<exists>k. common_ancestor args = Inr (take k (hd args)) \<and> k < shortest args \<and>
             (\<forall>j<k. agree args j) \<and> \<not> agree args k"
proof -
  let ?array = "map set (zip_star args)"
  let ?P = "\<lambda>s::'a set. 1 < card s"
  let ?k = "length (takeWhile (\<lambda>s. \<not> ?P s) ?array)"
  have len: "length ?array = shortest args" by (simp add: length_zip_star)
  from assms have ne: "filter ?P ?array \<noteq> []"
    using divergence_Nil_iff [of args] by blast
  from assms(1) have args: "args \<noteq> []" by auto
  have idx: "index_of ?array (hd (filter ?P ?array)) = Inr ?k"
    using ne by (rule index_of_first)
  have ca: "common_ancestor args = Inr (take ?k (hd args))"
    using ne args idx
    by (simp add: common_ancestor_def Let_def first_item_hd)
  have "\<exists>s\<in>set ?array. ?P s" using ne by (simp add: filter_empty_conv)
  then have "takeWhile (\<lambda>s. \<not> ?P s) ?array \<noteq> ?array" by simp
  moreover have "takeWhile (\<lambda>s. \<not> ?P s) ?array = take ?k ?array" by (rule takeWhile_eq_take)
  ultimately have "?k \<noteq> length ?array" by auto
  moreover have "?k \<le> length ?array" by (rule length_takeWhile_le)
  ultimately have klt: "?k < length ?array" by simp
  then have "?P (?array ! ?k)"
    using nth_length_takeWhile [of "\<lambda>s. \<not> ?P s" ?array] by blast
  then have nk: "\<not> agree args ?k" using klt diverges_iff [of ?k args] len by simp
  have "agree args j" if "j < ?k" for j
  proof -
    have "takeWhile (\<lambda>s. \<not> ?P s) ?array ! j \<in> set (takeWhile (\<lambda>s. \<not> ?P s) ?array)"
      using that by (rule nth_mem)
    then have "\<not> ?P (takeWhile (\<lambda>s. \<not> ?P s) ?array ! j)"
      by (rule set_takeWhileD [THEN conjunct2])
    then have "\<not> ?P (?array ! j)" using that by (simp add: takeWhile_nth)
    moreover have "j < shortest args" using that klt len by simp
    ultimately show ?thesis using diverges_iff [of j args] by simp
  qed
  with ca klt nk len show ?thesis by auto
qed

lemma common_ancestor_agreeing:
  assumes "args \<noteq> []" and "\<forall>i<shortest args. agree args i"
  shows "common_ancestor args = Inr (Min (set args))"
  using assms divergence_Nil_iff [of args]
  by (simp add: common_ancestor_def Let_def py_min_Min)

text \<open>
  Claim C1. When the arguments disagree at some scanned position (a position below the
  length of the shortest argument), \<^verbatim>\<open>common_ancestor\<close> returns the first argument cut
  at the first position \<open>k\<close> where they disagree: they agree at every position below
  \<open>k\<close> and not at \<open>k\<close>. The two examples of the docstring evaluate as documented.
\<close>

theorem common_ancestor_cut_at_first_divergence:
  "(i < shortest args \<and> \<not> agree args i \<longrightarrow>
      (\<exists>k. common_ancestor args = Inr (take k (hd args)) \<and> k < shortest args \<and>
           (\<forall>j<k. agree args j) \<and> \<not> agree args k)) \<and>
   common_ancestor [[''1'', ''2'', ''3''], [''1'', ''2'', ''0''], [''1'', ''2'', ''3'', ''4'']]
     = Inr [''1'', ''2''] \<and>
   common_ancestor [''azerty'', ''azetty'', ''azello''] = Inr ''aze''"
proof (intro conjI impI)
  assume "i < shortest args \<and> \<not> agree args i"
  then show "\<exists>k. common_ancestor args = Inr (take k (hd args)) \<and> k < shortest args \<and>
                 (\<forall>j<k. agree args j) \<and> \<not> agree args k"
    using common_ancestor_diverging [of i args] by blast
next
  show "common_ancestor [[''1'', ''2'', ''3''], [''1'', ''2'', ''0''], [''1'', ''2'', ''3'', ''4'']]
          = Inr [''1'', ''2'']"
    by code_simp
next
  show "common_ancestor [''azerty'', ''azetty'', ''azello''] = Inr ''aze''"
    by code_simp
qed

theorem common_ancestor_cut_at_first_divergence_witness:
  "(1::nat) < shortest [[1::nat, 2], [1, 3]] \<and> \<not> agree [[1::nat, 2], [1, 3]] 1 \<and>
   (\<exists>k. common_ancestor [[1::nat, 2], [1, 3]] = Inr (take k (hd [[1, 2], [1, 3]])) \<and>
        k < shortest [[1::nat, 2], [1, 3]] \<and>
        (\<forall>j<k. agree [[1::nat, 2], [1, 3]] j) \<and> \<not> agree [[1::nat, 2], [1, 3]] k)"
proof -
  have h: "(1::nat) < shortest [[1::nat, 2], [1, 3]] \<and> \<not> agree [[1::nat, 2], [1, 3]] 1"
    by (simp add: agree_def)
  with common_ancestor_cut_at_first_divergence [of 1 "[[1::nat, 2], [1, 3]]"]
  show ?thesis by blast
qed

text \<open>
  Claim C2. When there is at least one argument and the arguments agree at every scanned
  position, \<^verbatim>\<open>common_ancestor\<close> returns the least argument in the lexicographic order;
  so \<^verbatim>\<open>common_ancestor(a, a)\<close> and \<^verbatim>\<open>common_ancestor(a)\<close> are \<open>a\<close>.
\<close>

theorem common_ancestor_agreeing_is_minimum:
  "(args \<noteq> [] \<and> (\<forall>i<shortest args. agree args i) \<longrightarrow>
      common_ancestor args = Inr (Min (set args))) \<and>
   common_ancestor [a, a] = Inr a \<and>
   common_ancestor [a] = Inr a"
proof (intro conjI impI)
  assume "args \<noteq> [] \<and> (\<forall>i<shortest args. agree args i)"
  then show "common_ancestor args = Inr (Min (set args))"
    using common_ancestor_agreeing [of args] by blast
next
  have "\<forall>i<shortest [a, a]. agree [a, a] i" by (simp add: agree_def)
  then have "common_ancestor [a, a] = Inr (Min (set [a, a]))"
    by (intro common_ancestor_agreeing) simp_all
  then show "common_ancestor [a, a] = Inr a" by simp
next
  have "\<forall>i<shortest [a]. agree [a] i" by (simp add: agree_def)
  then have "common_ancestor [a] = Inr (Min (set [a]))"
    by (intro common_ancestor_agreeing) simp_all
  then show "common_ancestor [a] = Inr a" by simp
qed

theorem common_ancestor_agreeing_is_minimum_witness:
  "[''abc'', ''ab'', ''abcd''] \<noteq> [] \<and> shortest [''abc'', ''ab'', ''abcd''] = 2 \<and>
   agree [''abc'', ''ab'', ''abcd''] 0 \<and> agree [''abc'', ''ab'', ''abcd''] 1 \<and>
   common_ancestor [''abc'', ''ab'', ''abcd''] = Inr ''ab''"
proof -
  have a: "agree [''abc'', ''ab'', ''abcd''] 0 \<and> agree [''abc'', ''ab'', ''abcd''] 1"
    by (simp add: agree_def)
  then have h: "\<forall>i<shortest [''abc'', ''ab'', ''abcd'']. agree [''abc'', ''ab'', ''abcd''] i"
    by (simp add: less_Suc_eq numeral_2_eq_2)
  have m: "Min (set [''abc'', ''ab'', ''abcd'']) = ''ab''" by simp
  from a h m common_ancestor_agreeing_is_minimum [of "[''abc'', ''ab'', ''abcd'']" "''abc''"]
  show ?thesis by simp
qed

lemma common_ancestor_returns:
  assumes "args \<noteq> []"
  shows "\<exists>r. common_ancestor args = Inr r"
proof (cases "\<forall>i<shortest args. agree args i")
  case True
  with assms show ?thesis using common_ancestor_agreeing [of args] by blast
next
  case False
  then show ?thesis using common_ancestor_diverging [of _ args] by blast
qed

lemma agree_pair: "agree [a, b] i \<longleftrightarrow> a ! i = b ! i"
  by (auto simp: agree_def)

text \<open>Two sequences that fork after a shared part: the shared part is the result.\<close>

lemma common_ancestor_fork:
  assumes "xs \<noteq> []" "ys \<noteq> []" "hd xs \<noteq> hd ys"
  shows "common_ancestor [ds @ xs, ds @ ys] = Inr ds"
proof -
  let ?args = "[ds @ xs, ds @ ys]"
  let ?n = "length ds"
  have lt: "?n < shortest ?args" using assms by (cases xs; cases ys) simp_all
  have na: "\<not> agree ?args ?n"
    using assms by (simp add: agree_pair hd_conv_nth nth_append)
  have ag: "agree ?args j" if "j < ?n" for j
    using that by (simp add: agree_pair nth_append)
  from common_ancestor_diverging [OF lt na]
  obtain k where k: "common_ancestor ?args = Inr (take k (hd ?args))"
      "\<forall>j<k. agree ?args j" "\<not> agree ?args k"
    by blast
  have "k = ?n"
  proof (rule ccontr)
    assume "k \<noteq> ?n"
    then consider "k < ?n" | "?n < k" by linarith
    then show False using k(2,3) ag na by cases blast+
  qed
  with k(1) show ?thesis by simp
qed

lemma le_append: "(xs :: 'a::linorder list) \<le> xs @ ys"
  by (induction xs) simp_all

text \<open>A sequence and one of its extensions: the shorter one is the minimum.\<close>

lemma common_ancestor_extension: "common_ancestor [ds, ds @ xs] = Inr ds"
proof -
  have "\<forall>i<shortest [ds, ds @ xs]. agree [ds, ds @ xs] i"
    by (simp add: agree_pair nth_append)
  then have "common_ancestor [ds, ds @ xs] = Inr (Min (set [ds, ds @ xs]))"
    by (intro common_ancestor_agreeing) simp_all
  moreover have "Min (set [ds, ds @ xs]) = ds"
    using le_append [of ds xs] by (simp add: min_def)
  ultimately show ?thesis by simp
qed

subsection \<open>\<^verbatim>\<open>paths_common_ancestor\<close>\<close>

lemma str_split_ne [simp]: "str_split sep s \<noteq> []"
  by (induction s) (auto split: list.splits)

lemma str_split_append:
  "str_split sep (d @ sep # r) = str_split sep d @ str_split sep r"
  by (induction d) (auto split: list.splits)

lemma str_join_split: "str_join [sep] (str_split sep s) = s"
proof (induction s)
  case Nil
  then show ?case by simp
next
  case (Cons c cs)
  obtain seg segs where r: "str_split sep cs = seg # segs"
    using str_split_ne [of sep cs] by (cases "str_split sep cs") auto
  show ?case
  proof (cases "c = sep")
    case True
    with Cons r show ?thesis by simp
  next
    case False
    with Cons r show ?thesis by (cases segs) auto
  qed
qed

lemma paths_fork:
  assumes "hd (str_split sep r1) \<noteq> hd (str_split sep r2)"
  shows "paths_common_ancestor sep [d @ sep # r1, d @ sep # r2] = Inr d"
  using assms
    common_ancestor_fork [of "str_split sep r1" "str_split sep r2" "str_split sep d"]
  by (simp add: paths_common_ancestor_def str_split_append str_join_split)

lemma paths_extension: "paths_common_ancestor sep [d, d @ sep # r] = Inr d"
  using common_ancestor_extension [of "str_split sep d" "str_split sep r"]
  by (simp add: paths_common_ancestor_def str_split_append str_join_split)

text \<open>
  Claim C7. For at least one path, \<^verbatim>\<open>paths_common_ancestor\<close> succeeds and is the
  separator-joined \<^verbatim>\<open>common_ancestor\<close> of the paths split at the separator. Two paths
  \<open>d/r1\<close> and \<open>d/r2\<close> whose first segments after \<open>d\<close> differ give \<open>d\<close>, and so do
  \<open>d\<close> and \<open>d/r\<close> (the docstring's example). Segments \<^verbatim>\<open>.\<close> and \<^verbatim>\<open>..\<close> are
  compared like any other segment: nothing is normalised. The directory returned is
  the text before the separator, so two paths that share the root only give the empty
  string.
\<close>

theorem paths_common_ancestor_split_join:
  "(args \<noteq> [] \<longrightarrow>
      (\<exists>segs. common_ancestor (map (str_split sep) args) = Inr segs \<and>
              paths_common_ancestor sep args = Inr (str_join [sep] segs))) \<and>
   (hd (str_split sep r1) \<noteq> hd (str_split sep r2) \<longrightarrow>
      paths_common_ancestor sep [d @ sep # r1, d @ sep # r2] = Inr d) \<and>
   paths_common_ancestor sep [d, d @ sep # r] = Inr d \<and>
   paths_common_ancestor CHR ''/''
     [''/Users/JohnDoe/Documents'', ''/Users/JohnDoe/Documents/Test.txt'']
     = Inr ''/Users/JohnDoe/Documents'' \<and>
   paths_common_ancestor CHR ''/'' [''a/./b'', ''a/b''] = Inr ''a'' \<and>
   paths_common_ancestor CHR ''/'' [''a/b/../c'', ''a/c''] = Inr ''a'' \<and>
   paths_common_ancestor CHR ''/'' [''/a'', ''/b''] = Inr []"
proof (intro conjI impI)
  assume "args \<noteq> []"
  then have "map (str_split sep) args \<noteq> []" by simp
  then obtain segs where "common_ancestor (map (str_split sep) args) = Inr segs"
    using common_ancestor_returns by blast
  then show "\<exists>segs. common_ancestor (map (str_split sep) args) = Inr segs \<and>
                    paths_common_ancestor sep args = Inr (str_join [sep] segs)"
    by (simp add: paths_common_ancestor_def)
next
  assume "hd (str_split sep r1) \<noteq> hd (str_split sep r2)"
  then show "paths_common_ancestor sep [d @ sep # r1, d @ sep # r2] = Inr d"
    by (rule paths_fork)
next
  show "paths_common_ancestor sep [d, d @ sep # r] = Inr d"
    by (rule paths_extension)
next
  show "paths_common_ancestor CHR ''/''
          [''/Users/JohnDoe/Documents'', ''/Users/JohnDoe/Documents/Test.txt'']
          = Inr ''/Users/JohnDoe/Documents''"
    using paths_extension [of "CHR ''/''" "''/Users/JohnDoe/Documents''" "''Test.txt''"]
    by simp
next
  show "paths_common_ancestor CHR ''/'' [''a/./b'', ''a/b''] = Inr ''a''"
    using paths_fork [of "CHR ''/''" "''./b''" "''b''" "''a''"] by simp
next
  show "paths_common_ancestor CHR ''/'' [''a/b/../c'', ''a/c''] = Inr ''a''"
    using paths_fork [of "CHR ''/''" "''b/../c''" "''c''" "''a''"] by simp
next
  show "paths_common_ancestor CHR ''/'' [''/a'', ''/b''] = Inr []"
    using paths_fork [of "CHR ''/''" "''a''" "''b''" "[]"] by simp
qed

theorem paths_common_ancestor_split_join_witness:
  "[''/usr/lib/x'', ''/usr/bin''] \<noteq> [] \<and>
   hd (str_split CHR ''/'' ''lib/x'') \<noteq> hd (str_split CHR ''/'' ''bin'') \<and>
   paths_common_ancestor CHR ''/'' [''/usr/lib/x'', ''/usr/bin''] = Inr ''/usr'' \<and>
   common_ancestor (map (str_split CHR ''/'') [''/usr/lib/x'', ''/usr/bin''])
     = Inr [[], ''usr'']"
proof -
  have h: "hd (str_split CHR ''/'' ''lib/x'') \<noteq> hd (str_split CHR ''/'' ''bin'')"
    by simp
  have p: "paths_common_ancestor CHR ''/'' [''/usr/lib/x'', ''/usr/bin''] = Inr ''/usr''"
    using h paths_common_ancestor_split_join
      [of "[''/usr/lib/x'', ''/usr/bin'']" "CHR ''/''" "''lib/x''" "''bin''" "''/usr''" "[]"]
    by simp
  have c: "common_ancestor (map (str_split CHR ''/'') [''/usr/lib/x'', ''/usr/bin''])
             = Inr [[], ''usr'']"
    using common_ancestor_fork [of "[''lib'', ''x'']" "[''bin'']" "[[], ''usr'']"] by simp
  from h p c show ?thesis by simp
qed

subsection \<open>\<^verbatim>\<open>required\<close>\<close>

lemma registered_iff:
  "r \<in> dom REQUIREMENTS_TO_CALLABLE \<longleftrightarrow>
   r = ''Colour'' \<or> r = ''jsonpickle'' \<or> r = ''NetworkX''"
  by (auto simp: REQUIREMENTS_TO_CALLABLE_def)

lemma probe_unregistered:
  "REQUIREMENTS_TO_CALLABLE r = None \<Longrightarrow> probe env r = Inl (KeyError r)"
  by (simp add: probe_def)

text \<open>A registered probe, asked to raise, returns \<^verbatim>\<open>True\<close> or raises \<^verbatim>\<open>ImportError\<close>.\<close>

lemma probe_registered:
  assumes "r \<in> dom REQUIREMENTS_TO_CALLABLE"
  shows "probe env r = Inr True \<or> (\<exists>msg. probe env r = Inl (ImportError msg))"
  using assms unfolding registered_iff
  by (auto simp: probe_def REQUIREMENTS_TO_CALLABLE_def is_colour_installed_def
      is_jsonpickle_installed_def is_networkx_installed_def split: import_outcome.splits)

lemma check_requirements_pass:
  "(\<forall>r\<in>set rs. probe env r = Inr True) \<Longrightarrow> check_requirements env rs = Inr ()"
  by (induction rs) simp_all

lemma check_requirements_stop:
  assumes "\<forall>q\<in>set pre. probe env q = Inr True" and "probe env r = Inl e"
  shows "check_requirements env (pre @ r # post) = Inl e"
  using assms by (induction pre) simp_all

lemma required_pass:
  "(\<forall>r\<in>set rs. probe env r = Inr True) \<Longrightarrow> required rs f env args w = f args w"
  by (simp add: required_def check_requirements_pass)

lemma required_stop:
  assumes "\<forall>q\<in>set pre. probe env q = Inr True" and "probe env r = Inl e"
  shows "required (pre @ r # post) f env args w = (Inl e, w)"
  using check_requirements_stop [OF assms] by (simp add: required_def)

lemma check_requirements_unregistered:
  assumes "r \<in> set rs" and "REQUIREMENTS_TO_CALLABLE r = None"
  shows "\<exists>e. check_requirements env rs = Inl e"
  using assms by (induction rs) (auto simp: probe_unregistered split: sum.splits)

lemma required_registered_stop:
  assumes "r \<in> dom REQUIREMENTS_TO_CALLABLE" and "\<forall>q\<in>set pre. probe env q = Inr True"
    and "probe env r \<noteq> Inr True"
  shows "\<exists>msg. probe env r = Inl (ImportError msg) \<and>
               required (pre @ r # post) f env args w = (Inl (ImportError msg), w)"
proof -
  from probe_registered [OF assms(1), of env] assms(3)
  obtain msg where "probe env r = Inl (ImportError msg)" by blast
  moreover from this have "required (pre @ r # post) f env args w = (Inl (ImportError msg), w)"
    using assms(2) by (intro required_stop)
  ultimately show ?thesis by blast
qed

text \<open>
  Claim C4. For registered requirement names, the function returned by
  \<^verbatim>\<open>required(*requirements)(function)\<close> runs the probes in the given order, each with
  \<^verbatim>\<open>raise_exception=True\<close>. When they all succeed it is \<open>function\<close> applied to the
  original arguments, result and effect unchanged. When one does not, the first such
  probe's \<^verbatim>\<open>ImportError\<close> is raised, whatever names follow it, \<open>function\<close> is not
  applied and the world is as it was. One of the two holds for every list of registered
  names.
\<close>

theorem required_runs_probes_then_function:
  "((\<forall>r\<in>set requirements. probe env r = Inr True) \<longrightarrow>
      required requirements function env args w = function args w) \<and>
   (r \<in> dom REQUIREMENTS_TO_CALLABLE \<and> (\<forall>q\<in>set pre. probe env q = Inr True) \<and>
    probe env r \<noteq> Inr True \<longrightarrow>
      (\<exists>msg. probe env r = Inl (ImportError msg) \<and>
             required (pre @ r # post) function env args w = (Inl (ImportError msg), w))) \<and>
   (set requirements \<subseteq> dom REQUIREMENTS_TO_CALLABLE \<longrightarrow>
      (\<forall>r\<in>set requirements. probe env r = Inr True) \<and>
        required requirements function env args w = function args w \<or>
      (\<exists>msg. required requirements function env args w = (Inl (ImportError msg), w))) \<and>
   probe env ''Colour'' = is_colour_installed env True \<and>
   probe env ''jsonpickle'' = is_jsonpickle_installed env True \<and>
   probe env ''NetworkX'' = is_networkx_installed env True"
proof (intro conjI impI)
  assume "\<forall>r\<in>set requirements. probe env r = Inr True"
  then show "required requirements function env args w = function args w"
    by (rule required_pass)
next
  assume "r \<in> dom REQUIREMENTS_TO_CALLABLE \<and> (\<forall>q\<in>set pre. probe env q = Inr True) \<and>
          probe env r \<noteq> Inr True"
  then show "\<exists>msg. probe env r = Inl (ImportError msg) \<and>
                   required (pre @ r # post) function env args w = (Inl (ImportError msg), w)"
    using required_registered_stop [of r pre env post "function" args w] by blast
next
  assume reg: "set requirements \<subseteq> dom REQUIREMENTS_TO_CALLABLE"
  show "(\<forall>r\<in>set requirements. probe env r = Inr True) \<and>
          required requirements function env args w = function args w \<or>
        (\<exists>msg. required requirements function env args w = (Inl (ImportError msg), w))"
  proof (cases "\<forall>r\<in>set requirements. probe env r = Inr True")
    case True
    then show ?thesis using required_pass [of requirements env "function" args w] by blast
  next
    case False
    then have "\<exists>x\<in>set requirements. probe env x \<noteq> Inr True" by blast
    from split_list_first_prop [OF this]
    obtain ys x zs where s: "requirements = ys @ x # zs" "probe env x \<noteq> Inr True"
        "\<forall>y\<in>set ys. \<not> probe env y \<noteq> Inr True"
      by blast
    from s(1) reg have "x \<in> dom REQUIREMENTS_TO_CALLABLE" by auto
    moreover from s(3) have "\<forall>q\<in>set ys. probe env q = Inr True" by blast
    ultimately show ?thesis
      using s(1,2) required_registered_stop [of x ys env zs "function" args w] by blast
  qed
qed (simp_all add: probe_def REQUIREMENTS_TO_CALLABLE_def)

theorem required_runs_probes_then_function_witness:
  "required [''Colour'', ''NetworkX''] (\<lambda>a w. (Inr (a + 1), Suc w)) (\<lambda>m. Imported) (5::nat) (0::nat)
     = (Inr (6::nat), 1) \<and>
   set [''Colour'', ''jsonpickle'', ''NetworkX''] \<subseteq> dom REQUIREMENTS_TO_CALLABLE \<and>
   probe (\<lambda>m. Imported) ''Colour'' = Inr True \<and>
   probe (\<lambda>m. Imported) ''NetworkX'' = Inr True \<and>
   probe (\<lambda>m. if m = ''colour'' then Imported else ImportFailure ''No module'') ''Colour''
     = Inr True \<and>
   probe (\<lambda>m. if m = ''colour'' then Imported else ImportFailure ''No module'') ''jsonpickle''
     \<noteq> Inr True \<and>
   (\<exists>msg. required [''Colour'', ''jsonpickle'', ''NetworkX''] (\<lambda>a w. (Inr (a + 1), Suc w))
            (\<lambda>m. if m = ''colour'' then Imported else ImportFailure ''No module'') (5::nat) (0::nat)
          = (Inl (ImportError msg) :: error + nat, 0))"
proof -
  let ?f = "\<lambda>(a::nat) (w::nat). (Inr (a + 1) :: error + nat, Suc w)"
  let ?env = "\<lambda>m. if m = ''colour'' then Imported else ImportFailure ''No module''"
  have p: "\<forall>r\<in>set [''Colour'', ''NetworkX'']. probe (\<lambda>m. Imported) r = Inr True"
    by (simp add: probe_def REQUIREMENTS_TO_CALLABLE_def is_colour_installed_def
        is_networkx_installed_def)
  have a: "required [''Colour'', ''NetworkX''] ?f (\<lambda>m. Imported) 5 0 = (Inr 6, 1)"
    using p required_runs_probes_then_function
      [of "[''Colour'', ''NetworkX'']" "\<lambda>m. Imported" ?f 5 0 "''Colour''" "[]" "[]"]
    by simp
  have r: "''Colour'' \<in> dom REQUIREMENTS_TO_CALLABLE"
       "''jsonpickle'' \<in> dom REQUIREMENTS_TO_CALLABLE"
    by (simp_all add: registered_iff)
  have c: "probe ?env ''Colour'' = Inr True"
    by (simp add: probe_def REQUIREMENTS_TO_CALLABLE_def is_colour_installed_def)
  have j: "probe ?env ''jsonpickle'' \<noteq> Inr True"
    by (simp add: probe_def REQUIREMENTS_TO_CALLABLE_def is_jsonpickle_installed_def)
  have pre: "\<forall>q\<in>set [''Colour'']. probe ?env q = Inr True"
    using c by simp
  have "\<exists>msg. probe ?env ''jsonpickle'' = Inl (ImportError msg) \<and>
          required ([''Colour''] @ ''jsonpickle'' # [''NetworkX'']) ?f ?env 5 0
            = (Inl (ImportError msg), 0)"
    using r(2) pre j required_runs_probes_then_function
      [of "[]" ?env ?f 5 0 "''jsonpickle''" "[''Colour'']" "[''NetworkX'']"]
    by blast
  then have b: "\<exists>msg. required [''Colour'', ''jsonpickle'', ''NetworkX''] ?f ?env 5 0
                  = (Inl (ImportError msg), 0)"
    by auto
  have d: "set [''Colour'', ''jsonpickle'', ''NetworkX''] \<subseteq> dom REQUIREMENTS_TO_CALLABLE"
    by (simp add: registered_iff)
  from p have q: "probe (\<lambda>m. Imported) ''Colour'' = Inr True"
      "probe (\<lambda>m. Imported) ''NetworkX'' = Inr True"
    by simp_all
  from a d q c j b show ?thesis by blast
qed

text \<open>
  Claim C8. A requirement name that is not a key of \<^verbatim>\<open>REQUIREMENTS_TO_CALLABLE\<close> makes
  the call of the wrapped function raise: \<open>function\<close> is not applied and the world is as
  it was. When every probe before the name succeeds the error is the \<^verbatim>\<open>KeyError\<close> of
  the lookup; otherwise an earlier probe has already raised.
\<close>

theorem required_unregistered_name_raises:
  "(r \<in> set requirements \<and> REQUIREMENTS_TO_CALLABLE r = None \<longrightarrow>
      (\<exists>e. required requirements function env args w = (Inl e, w))) \<and>
   ((\<forall>q\<in>set pre. probe env q = Inr True) \<and> REQUIREMENTS_TO_CALLABLE r = None \<longrightarrow>
      required (pre @ r # post) function env args w = (Inl (KeyError r), w)) \<and>
   required [''OpenImageIO''] function env args w = (Inl (KeyError ''OpenImageIO''), w)"
proof (intro conjI impI)
  assume "r \<in> set requirements \<and> REQUIREMENTS_TO_CALLABLE r = None"
  then obtain e where "check_requirements env requirements = Inl e"
    using check_requirements_unregistered [of r requirements env] by blast
  then show "\<exists>e. required requirements function env args w = (Inl e, w)"
    by (simp add: required_def)
next
  assume "(\<forall>q\<in>set pre. probe env q = Inr True) \<and> REQUIREMENTS_TO_CALLABLE r = None"
  then show "required (pre @ r # post) function env args w = (Inl (KeyError r), w)"
    using required_stop [of pre env r "KeyError r" post "function" args w]
    by (simp add: probe_unregistered)
next
  show "required [''OpenImageIO''] function env args w = (Inl (KeyError ''OpenImageIO''), w)"
    by (simp add: required_def probe_def REQUIREMENTS_TO_CALLABLE_def)
qed

theorem required_unregistered_name_raises_witness:
  "''colour'' \<in> set [''Colour'', ''colour''] \<and> REQUIREMENTS_TO_CALLABLE ''colour'' = None \<and>
   probe (\<lambda>m. Imported) ''Colour'' = Inr True \<and>
   required [''Colour'', ''colour''] (\<lambda>a w. (Inr (a + 1), Suc w)) (\<lambda>m. Imported) (5::nat) (0::nat)
     = (Inl (KeyError ''colour'') :: error + nat, 0)"
proof -
  let ?f = "\<lambda>(a::nat) (w::nat). (Inr (a + 1) :: error + nat, Suc w)"
  have n: "REQUIREMENTS_TO_CALLABLE ''colour'' = None"
    by (simp add: REQUIREMENTS_TO_CALLABLE_def)
  have c: "probe (\<lambda>m. Imported) ''Colour'' = Inr True"
    by (simp add: probe_def REQUIREMENTS_TO_CALLABLE_def is_colour_installed_def)
  have "required ([''Colour''] @ ''colour'' # []) ?f (\<lambda>m. Imported) 5 0
          = (Inl (KeyError ''colour''), 0)"
    using n c required_unregistered_name_raises
      [of "''colour''" "[''Colour'', ''colour'']" ?f "\<lambda>m. Imported" 5 0 "[''Colour'']" "[]"]
    by simp
  with n c show ?thesis by simp
qed

subsection \<open>\<^verbatim>\<open>vivified_to_dict\<close>\<close>

lemma vivified_to_dict_plain: "vivified v \<Longrightarrow> plain (vivified_to_dict v)"
proof (induction v)
  case (Scalar x)
  show ?case by simp
next
  case (DefaultDict items)
  have "plain (vivified_to_dict c)" if "fmlookup items k = Some c" for k c
  proof -
    from that have "c \<in> fmran' items" by (rule fmran'I)
    moreover from DefaultDict.prems that have "vivified c" by (auto simp: fmpred_iff)
    ultimately show ?thesis by (rule DefaultDict.IH)
  qed
  then show ?case by (auto simp: fmpred_iff)
next
  case (Dict items)
  then show ?case by simp
qed

lemma plain_unchanged: "plain v \<Longrightarrow> vivified_to_dict v = v"
  by (cases v) simp_all

lemma plain_lookup_path: "plain v \<Longrightarrow> lookup_path v path = Some x \<Longrightarrow> plain x"
proof (induction path arbitrary: v)
  case Nil
  then show ?case by simp
next
  case (Cons key keys)
  then show ?case
    by (cases v) (auto simp: fmpred_iff split: option.splits)
qed

lemma vivified_lookup_path:
  "vivified v \<Longrightarrow>
   lookup_path (vivified_to_dict v) path = map_option vivified_to_dict (lookup_path v path)"
proof (induction path arbitrary: v)
  case Nil
  then show ?case by simp
next
  case (Cons key keys)
  show ?case
  proof (cases v)
    case (Scalar x)
    then show ?thesis by simp
  next
    case (DefaultDict items)
    with Cons.prems have "vivified child" if "fmlookup items key = Some child" for child
      using that by (auto simp: fmpred_iff)
    with Cons.IH DefaultDict show ?thesis by (simp split: option.splits)
  next
    case (Dict items)
    show ?thesis
    proof (cases "lookup_path v (key # keys)")
      case None
      with Dict show ?thesis by simp
    next
      case (Some x)
      from Cons.prems Dict have "plain v" by simp
      from this Some have "plain x" by (rule plain_lookup_path)
      with Some Dict show ?thesis by (simp add: plain_unchanged)
    qed
  qed
qed

text \<open>
  On the store, a call only appends objects: whatever it returns or raises, the store
  it leaves is the store it found followed by new objects.
\<close>

lemma cell_at_append: "cell_at s a = Some c \<Longrightarrow> cell_at (s @ new) a = Some c"
  by (auto simp: cell_at_def nth_append split: if_splits)

lemma holds_append: "holds s a v \<Longrightarrow> holds (s @ new) a v"
proof (induction rule: holds.induct)
  case (holds_scalar s a x)
  then show ?case by (auto intro: holds.holds_scalar cell_at_append)
next
  case (holds_defaultdict s a items trees)
  from holds_defaultdict(3) have "list_all2 (holds (s @ new)) (map snd items) trees"
    by (rule list_all2_mono) simp
  with holds_defaultdict(1,2) show ?case
    by (auto intro!: holds.holds_defaultdict cell_at_append)
next
  case (holds_dict s a items trees)
  from holds_dict(3) have "list_all2 (holds (s @ new)) (map snd items) trees"
    by (rule list_all2_mono) simp
  with holds_dict(1,2) show ?case
    by (auto intro!: holds.holds_dict cell_at_append)
qed

lemma convert_items_extends:
  assumes "\<And>s a r s'. convert s a = (r, s') \<Longrightarrow> \<exists>new. s' = s @ new"
  shows "convert_items convert s items = (r, s') \<Longrightarrow> \<exists>new. s' = s @ new"
proof (induction items arbitrary: s r s')
  case Nil
  then show ?case by simp
next
  case (Cons item rest)
  obtain key val where item: "item = (key, val)" by (cases item)
  obtain r1 s1 where c: "convert s val = (r1, s1)" by (cases "convert s val")
  from assms [OF c] obtain n1 where s1: "s1 = s @ n1" by blast
  show ?case
  proof (cases r1)
    case (Inl e)
    with Cons.prems c item s1 show ?thesis by auto
  next
    case (Inr val')
    obtain r2 s2 where c2: "convert_items convert s1 rest = (r2, s2)"
      by (cases "convert_items convert s1 rest")
    from Cons.IH [OF c2] obtain n2 where "s2 = s1 @ n2" by blast
    with s1 have "s2 = s @ (n1 @ n2)" by simp
    with Cons.prems c item Inr c2 show ?thesis by (cases r2) auto
  qed
qed

lemma vivified_to_dict_at_extends:
  "vivified_to_dict_at depth s a = (r, s') \<Longrightarrow> \<exists>new. s' = s @ new"
proof (induction depth arbitrary: s a r s')
  case 0
  then show ?case by simp
next
  case (Suc depth)
  show ?case
  proof (cases "cell_at s a")
    case None
    with Suc.prems show ?thesis by simp
  next
    case (Some c)
    show ?thesis
    proof (cases c)
      case (DefaultDictCell items)
      obtain r1 s1 where c1: "convert_items (vivified_to_dict_at depth) s items = (r1, s1)"
        by (cases "convert_items (vivified_to_dict_at depth) s items")
      have "\<exists>new. s1 = s @ new"
        by (rule convert_items_extends [OF _ c1]) (rule Suc.IH)
      then obtain n1 where "s1 = s @ n1" by blast
      with Suc.prems Some DefaultDictCell c1 show ?thesis by (cases r1) auto
    qed (use Suc.prems Some in auto)
  qed
qed


lemma convert_items_mono:
  assumes "\<And>s a r s'. convert s a = (Inr r, s') \<Longrightarrow> convert' s a = (Inr r, s')"
  shows "convert_items convert s items = (Inr r, s') \<Longrightarrow>
         convert_items convert' s items = (Inr r, s')"
proof (induction items arbitrary: s r s')
  case Nil
  then show ?case by simp
next
  case (Cons item rest)
  obtain key val where item: "item = (key, val)" by (cases item)
  from Cons.prems item obtain val' s1 rest' where
    c: "convert s val = (Inr val', s1)" and
    cr: "convert_items convert s1 rest = (Inr rest', s')" and
    r: "r = (key, val') # rest'"
    by (auto split: prod.splits sum.splits)
  from assms [OF c] Cons.IH [OF cr] item r show ?case by simp
qed

lemma vivified_to_dict_at_Suc:
  "vivified_to_dict_at depth s a = (Inr r, s') \<Longrightarrow>
   vivified_to_dict_at (Suc depth) s a = (Inr r, s')"
proof (induction depth arbitrary: s a r s')
  case 0
  then show ?case by simp
next
  case (Suc depth)
  show ?case
  proof (cases "cell_at s a")
    case None
    with Suc.prems show ?thesis by simp
  next
    case (Some c)
    show ?thesis
    proof (cases c)
      case (DefaultDictCell items)
      from Suc.prems Some DefaultDictCell obtain items' s1 where
        c1: "convert_items (vivified_to_dict_at depth) s items = (Inr items', s1)" and
        r: "r = length s1" "s' = s1 @ [DictCell items']"
        by (auto split: prod.splits sum.splits)
      have "convert_items (vivified_to_dict_at (Suc depth)) s items = (Inr items', s1)"
        by (rule convert_items_mono [OF _ c1]) (rule Suc.IH)
      with Some DefaultDictCell r show ?thesis by simp
    qed (use Suc.prems Some in auto)
  qed
qed

lemma vivified_to_dict_at_mono:
  assumes "vivified_to_dict_at depth s a = (Inr r, s')" and "depth \<le> depth'"
  shows "vivified_to_dict_at depth' s a = (Inr r, s')"
  using assms(2,1)
proof (induction rule: dec_induct)
  case base
  then show ?case .
next
  case (step n)
  from step.IH [OF step.prems] show ?case by (rule vivified_to_dict_at_Suc)
qed

lemma convert_items_depth_mono:
  assumes "convert_items (vivified_to_dict_at depth) s items = (Inr r, s')" and "depth \<le> depth'"
  shows "convert_items (vivified_to_dict_at depth') s items = (Inr r, s')"
  by (rule convert_items_mono [OF _ assms(1)]) (rule vivified_to_dict_at_mono [OF _ assms(2)])

lemma fmmap_zip:
  "fmmap f (fmap_of_list (zip ks vs)) = fmap_of_list (zip ks (map f vs))"
  by (simp add: fmmap_of_list zip_map2 apsnd_def map_prod_def)

text \<open>
  For the induction below: from any store that extends \<open>s\<close>, some depth suffices for
  the call at \<open>a\<close> to return an object that reads as the converted value.
\<close>

definition converts :: "('k, 'v) store \<Rightarrow> addr \<Rightarrow> ('k, 'v) pyobj \<Rightarrow> bool" where
  "converts s a v \<longleftrightarrow>
     (\<forall>new. \<exists>depth a' s'. vivified_to_dict_at depth (s @ new) a = (Inr a', s') \<and>
                          holds s' a' (vivified_to_dict v))"

lemma convert_items_converts:
  assumes "list_all2 (converts s) (map snd items) trees"
  shows "\<exists>depth items' s'.
           convert_items (vivified_to_dict_at depth) (s @ new) items = (Inr items', s') \<and>
           map fst items' = map fst items \<and>
           list_all2 (holds s') (map snd items') (map vivified_to_dict trees)"
  using assms
proof (induction items arbitrary: trees new)
  case Nil
  then show ?case by simp
next
  case (Cons item rest)
  obtain key val where item: "item = (key, val)" by (cases item)
  from Cons.prems item obtain t ts where
    trees: "trees = t # ts" and t: "converts s val t" and
    ts: "list_all2 (converts s) (map snd rest) ts"
    by (auto simp: list_all2_Cons1)
  from t obtain d1 val' s1 where
    c1: "vivified_to_dict_at d1 (s @ new) val = (Inr val', s1)" and
    h1: "holds s1 val' (vivified_to_dict t)"
    unfolding converts_def by blast
  from vivified_to_dict_at_extends [OF c1] obtain n1 where s1: "s1 = (s @ new) @ n1" by blast
  from Cons.IH [OF ts, of "new @ n1"] s1 obtain d2 rest' s2 where
    c2: "convert_items (vivified_to_dict_at d2) s1 rest = (Inr rest', s2)" and
    k2: "map fst rest' = map fst rest" and
    h2: "list_all2 (holds s2) (map snd rest') (map vivified_to_dict ts)"
    by auto
  have "\<exists>new. s2 = s1 @ new"
    by (rule convert_items_extends [OF _ c2]) (rule vivified_to_dict_at_extends)
  then obtain n2 where s2: "s2 = s1 @ n2" by blast
  let ?d = "max d1 d2"
  have "vivified_to_dict_at ?d (s @ new) val = (Inr val', s1)"
    using c1 by (rule vivified_to_dict_at_mono) simp
  moreover have "convert_items (vivified_to_dict_at ?d) s1 rest = (Inr rest', s2)"
    using c2 by (rule convert_items_depth_mono) simp
  ultimately have "convert_items (vivified_to_dict_at ?d) (s @ new) (item # rest) =
                     (Inr ((key, val') # rest'), s2)"
    by (simp add: item)
  moreover have "map fst ((key, val') # rest') = map fst (item # rest)"
    using k2 item by simp
  moreover have "holds s2 val' (vivified_to_dict t)"
    using h1 unfolding s2 by (rule holds_append)
  with h2 have "list_all2 (holds s2) (map snd ((key, val') # rest')) (map vivified_to_dict trees)"
    by (simp add: trees)
  ultimately show ?case by blast
qed

lemma holds_converts: "holds s a v \<Longrightarrow> converts s a v"
proof (induction rule: holds.induct)
  case (holds_scalar s a x)
  show ?case unfolding converts_def
  proof
    fix new
    from holds_scalar have c: "cell_at (s @ new) a = Some (ScalarCell x)"
      by (rule cell_at_append)
    then have "vivified_to_dict_at (Suc 0) (s @ new) a = (Inr a, s @ new)" by simp
    moreover from c have "holds (s @ new) a (vivified_to_dict (Scalar x))"
      by (simp add: holds.holds_scalar)
    ultimately show "\<exists>depth a' s'. vivified_to_dict_at depth (s @ new) a = (Inr a', s') \<and>
                       holds s' a' (vivified_to_dict (Scalar x))"
      by blast
  qed
next
  case (holds_dict s a items trees)
  from holds_dict(3) have "list_all2 (holds s) (map snd items) trees"
    by (rule list_all2_mono) simp
  with holds_dict(1,2) have h: "holds s a (Dict (fmap_of_list (zip (map fst items) trees)))"
    by (rule holds.holds_dict)
  show ?case unfolding converts_def
  proof
    fix new
    from holds_dict(1) have c: "cell_at (s @ new) a = Some (DictCell items)"
      by (rule cell_at_append)
    then have "vivified_to_dict_at (Suc 0) (s @ new) a = (Inr a, s @ new)" by simp
    moreover from h have "holds (s @ new) a
        (vivified_to_dict (Dict (fmap_of_list (zip (map fst items) trees))))"
      by (simp add: holds_append)
    ultimately show "\<exists>depth a' s'. vivified_to_dict_at depth (s @ new) a = (Inr a', s') \<and>
        holds s' a' (vivified_to_dict (Dict (fmap_of_list (zip (map fst items) trees))))"
      by blast
  qed
next
  case (holds_defaultdict s a items trees)
  from holds_defaultdict(3) have conv: "list_all2 (converts s) (map snd items) trees"
    by (rule list_all2_mono) simp
  show ?case unfolding converts_def
  proof
    fix new
    from holds_defaultdict(1) have c: "cell_at (s @ new) a = Some (DefaultDictCell items)"
      by (rule cell_at_append)
    from convert_items_converts [OF conv, of new] obtain depth items' s1 where
      ci: "convert_items (vivified_to_dict_at depth) (s @ new) items = (Inr items', s1)" and
      keys: "map fst items' = map fst items" and
      hs: "list_all2 (holds s1) (map snd items') (map vivified_to_dict trees)"
      by blast
    let ?s' = "s1 @ [DictCell items']"
    have run: "vivified_to_dict_at (Suc depth) (s @ new) a = (Inr (length s1), ?s')"
      using c ci by simp
    have "cell_at ?s' (length s1) = Some (DictCell items')" by (simp add: cell_at_def)
    moreover have "distinct (map fst items')" using keys holds_defaultdict(2) by simp
    moreover from hs have "list_all2 (holds ?s') (map snd items') (map vivified_to_dict trees)"
      by (rule list_all2_mono) (simp add: holds_append)
    ultimately have "holds ?s' (length s1)
        (Dict (fmap_of_list (zip (map fst items') (map vivified_to_dict trees))))"
      by (rule holds.holds_dict)
    then have "holds ?s' (length s1)
        (vivified_to_dict (DefaultDict (fmap_of_list (zip (map fst items) trees))))"
      by (simp add: fmmap_zip keys)
    with run show "\<exists>depth a' s'. vivified_to_dict_at depth (s @ new) a = (Inr a', s') \<and>
        holds s' a' (vivified_to_dict (DefaultDict (fmap_of_list (zip (map fst items) trees))))"
      by blast
  qed
qed

lemma vivified_to_dict_at_returns:
  assumes "holds s a v"
  shows "\<exists>depth a' s'. vivified_to_dict_at depth s a = (Inr a', s') \<and>
           holds s' a' (vivified_to_dict v) \<and> holds s' a v"
proof -
  from holds_converts [OF assms] obtain depth a' s' where
    r: "vivified_to_dict_at depth (s @ []) a = (Inr a', s')" and
    h: "holds s' a' (vivified_to_dict v)"
    unfolding converts_def by blast
  from r have r': "vivified_to_dict_at depth s a = (Inr a', s')" by simp
  from vivified_to_dict_at_extends [OF r'] obtain new where "s' = s @ new" by blast
  with assms have "holds s' a v" by (simp add: holds_append)
  with r' h show ?thesis by blast
qed

lemma vivified_to_dict_at_result:
  assumes "holds s a v" and "vivified_to_dict_at depth s a = (Inr a', s')"
  shows "holds s' a' (vivified_to_dict v) \<and> holds s' a v"
proof -
  from vivified_to_dict_at_returns [OF assms(1)] obtain d0 a0 s0 where
    r0: "vivified_to_dict_at d0 s a = (Inr a0, s0)" and
    h0: "holds s0 a0 (vivified_to_dict v)" "holds s0 a v"
    by blast
  have "vivified_to_dict_at (max depth d0) s a = (Inr a0, s0)"
    using r0 by (rule vivified_to_dict_at_mono) simp
  moreover have "vivified_to_dict_at (max depth d0) s a = (Inr a', s')"
    using assms(2) by (rule vivified_to_dict_at_mono) simp
  ultimately have "a' = a0" "s' = s0" by simp_all
  with h0 show ?thesis by simp
qed


lemma holds_example:
  "holds [DefaultDictCell [(''my'', 1)], DefaultDictCell [(''attribute'', 2)], ScalarCell x] 0
     (DefaultDict (fmap_of_list (zip [''my'']
        [DefaultDict (fmap_of_list (zip [''attribute''] [Scalar x]))])))"
proof -
  let ?s = "[DefaultDictCell [(''my'', 1)], DefaultDictCell [(''attribute'', 2)], ScalarCell x]"
  let ?inner = "DefaultDict (fmap_of_list (zip (map fst [(''attribute'', 2::nat)]) [Scalar x]))"
  have "holds ?s 2 (Scalar x)"
    by (rule holds_scalar) (simp add: cell_at_def)
  then have l2: "list_all2 (holds ?s) (map snd [(''attribute'', 2::nat)]) [Scalar x]"
    by simp
  have c1: "cell_at ?s 1 = Some (DefaultDictCell [(''attribute'', 2)])"
    by (simp add: cell_at_def)
  have "holds ?s 1 ?inner"
    using c1 _ l2 by (rule holds_defaultdict) simp
  then have l1: "list_all2 (holds ?s) (map snd [(''my'', 1::nat)]) [?inner]"
    by simp
  have c0: "cell_at ?s 0 = Some (DefaultDictCell [(''my'', 1)])"
    by (simp add: cell_at_def)
  have "holds ?s 0 (DefaultDict (fmap_of_list (zip (map fst [(''my'', 1::nat)]) [?inner])))"
    using c0 _ l1 by (rule holds_defaultdict) simp
  then show ?thesis by simp
qed

lemma vivified_to_dict_at_example:
  "vivified_to_dict_at 3
     [DefaultDictCell [(''my'', 1)], DefaultDictCell [(''attribute'', 2)], ScalarCell x] 0 =
   (Inr 4,
    [DefaultDictCell [(''my'', 1)], DefaultDictCell [(''attribute'', 2)], ScalarCell x,
     DictCell [(''attribute'', 2)], DictCell [(''my'', 3)]])"
  by (simp add: cell_at_def eval_nat_numeral)


text \<open>
  Claim C6, as the code has it. \<^verbatim>\<open>vivified_to_dict\<close> converts the \<^verbatim>\<open>defaultdict\<close>
  nodes it reaches through \<^verbatim>\<open>defaultdict\<close> nodes only. So for a vivified structure,
  one where no \<^verbatim>\<open>defaultdict\<close> is held inside a plain \<^verbatim>\<open>dict\<close>, the result has no
  \<^verbatim>\<open>defaultdict\<close> left in it, and following any path of keys in the result finds the
  converted value of what the path finds in the argument: the same keys are present at
  every level. A \<^verbatim>\<open>defaultdict\<close> becomes a \<^verbatim>\<open>dict\<close> with the same keys, each holding
  the converted value; a value that is not a \<^verbatim>\<open>defaultdict\<close> is returned unchanged,
  whatever it holds. On the store, a call changes no object that exists when it is
  made: it only creates objects. For an object that reads as the value \<open>v\<close>, some
  depth suffices for the call to return, and whenever it returns, the returned object
  reads as the converted \<open>v\<close> and the argument still reads as \<open>v\<close>. After
  \<^verbatim>\<open>vivified['my']['attribute'] = x\<close> on a fresh \<^verbatim>\<open>vivification()\<close> the result is
  \<^verbatim>\<open>{'my': {'attribute': x}}\<close>.
\<close>

theorem vivified_to_dict_materializes:
  "(vivified v \<longrightarrow> plain (vivified_to_dict v)) \<and>
   (vivified v \<longrightarrow>
      lookup_path (vivified_to_dict v) path = map_option vivified_to_dict (lookup_path v path)) \<and>
   (\<exists>items'. vivified_to_dict (DefaultDict items) = Dict items' \<and>
             fmdom items' = fmdom items \<and>
             (\<forall>key. fmlookup items' key = map_option vivified_to_dict (fmlookup items key))) \<and>
   vivified_to_dict (Scalar x) = Scalar x \<and>
   vivified_to_dict (Dict items) = Dict items \<and>
   (vivified_to_dict_at depth s a = (r, s') \<longrightarrow> (\<exists>new. s' = s @ new)) \<and>
   (holds s a v \<longrightarrow>
      (\<exists>depth a' s'. vivified_to_dict_at depth s a = (Inr a', s') \<and>
                     holds s' a' (vivified_to_dict v) \<and> holds s' a v)) \<and>
   (holds s a v \<and> vivified_to_dict_at depth s a = (Inr a', s') \<longrightarrow>
      holds s' a' (vivified_to_dict v) \<and> holds s' a v) \<and>
   setitem_path vivification [''my'', ''attribute''] (Scalar x)
     = Inr (DefaultDict (fmupd ''my'' (DefaultDict (fmupd ''attribute'' (Scalar x) fmempty)) fmempty)) \<and>
   vivified_to_dict
       (DefaultDict (fmupd ''my'' (DefaultDict (fmupd ''attribute'' (Scalar x) fmempty)) fmempty))
     = Dict (fmupd ''my'' (Dict (fmupd ''attribute'' (Scalar x) fmempty)) fmempty)"
proof (intro conjI impI)
  assume "vivified v"
  then show "plain (vivified_to_dict v)" by (rule vivified_to_dict_plain)
next
  assume "vivified v"
  then show "lookup_path (vivified_to_dict v) path
               = map_option vivified_to_dict (lookup_path v path)"
    by (rule vivified_lookup_path)
next
  show "\<exists>items'. vivified_to_dict (DefaultDict items) = Dict items' \<and>
          fmdom items' = fmdom items \<and>
          (\<forall>key. fmlookup items' key = map_option vivified_to_dict (fmlookup items key))"
    by simp
next
  assume "vivified_to_dict_at depth s a = (r, s')"
  then show "\<exists>new. s' = s @ new" by (rule vivified_to_dict_at_extends)
next
  assume "holds s a v"
  then show "\<exists>depth a' s'. vivified_to_dict_at depth s a = (Inr a', s') \<and>
               holds s' a' (vivified_to_dict v) \<and> holds s' a v"
    by (rule vivified_to_dict_at_returns)
next
  assume h: "holds s a v \<and> vivified_to_dict_at depth s a = (Inr a', s')"
  then show "holds s' a' (vivified_to_dict v)"
    using vivified_to_dict_at_result [of s a v depth a' s'] by blast
  from h show "holds s' a v"
    using vivified_to_dict_at_result [of s a v depth a' s'] by blast
next
  show "setitem_path vivification [''my'', ''attribute''] (Scalar x)
          = Inr (DefaultDict (fmupd ''my'' (DefaultDict (fmupd ''attribute'' (Scalar x) fmempty)) fmempty))"
    by (simp add: vivification_def)
next
  show "vivified_to_dict
          (DefaultDict (fmupd ''my'' (DefaultDict (fmupd ''attribute'' (Scalar x) fmempty)) fmempty))
        = Dict (fmupd ''my'' (Dict (fmupd ''attribute'' (Scalar x) fmempty)) fmempty)"
    by (simp add: fmmap_fmupd)
qed simp_all

theorem vivified_to_dict_materializes_witness:
  "vivified (DefaultDict (fmap_of_list (zip [''my'']
        [DefaultDict (fmap_of_list (zip [''attribute''] [Scalar (1::nat)]))]))) \<and>
   plain (vivified_to_dict (DefaultDict (fmap_of_list (zip [''my'']
        [DefaultDict (fmap_of_list (zip [''attribute''] [Scalar (1::nat)]))])))) \<and>
   lookup_path (vivified_to_dict (DefaultDict (fmap_of_list (zip [''my'']
        [DefaultDict (fmap_of_list (zip [''attribute''] [Scalar (1::nat)]))]))))
      [''my'', ''attribute''] = Some (Scalar 1) \<and>
   vivified_to_dict_at 3
     [DefaultDictCell [(''my'', 1)], DefaultDictCell [(''attribute'', 2)], ScalarCell (1::nat)] 0 =
   (Inr 4,
    [DefaultDictCell [(''my'', 1)], DefaultDictCell [(''attribute'', 2)], ScalarCell 1]
      @ [DictCell [(''attribute'', 2)], DictCell [(''my'', 3)]]) \<and>
   holds [DefaultDictCell [(''my'', 1)], DefaultDictCell [(''attribute'', 2)], ScalarCell (1::nat)] 0
     (DefaultDict (fmap_of_list (zip [''my'']
        [DefaultDict (fmap_of_list (zip [''attribute''] [Scalar 1]))]))) \<and>
   holds ([DefaultDictCell [(''my'', 1)], DefaultDictCell [(''attribute'', 2)], ScalarCell (1::nat)]
            @ [DictCell [(''attribute'', 2)], DictCell [(''my'', 3)]]) 4
     (vivified_to_dict (DefaultDict (fmap_of_list (zip [''my'']
        [DefaultDict (fmap_of_list (zip [''attribute''] [Scalar 1]))])))) \<and>
   holds ([DefaultDictCell [(''my'', 1)], DefaultDictCell [(''attribute'', 2)], ScalarCell (1::nat)]
            @ [DictCell [(''attribute'', 2)], DictCell [(''my'', 3)]]) 0
     (DefaultDict (fmap_of_list (zip [''my'']
        [DefaultDict (fmap_of_list (zip [''attribute''] [Scalar 1]))])))"
proof -
  let ?v = "DefaultDict (fmap_of_list (zip [''my'']
        [DefaultDict (fmap_of_list (zip [''attribute''] [Scalar (1::nat)]))]))"
  let ?s = "[DefaultDictCell [(''my'', 1)], DefaultDictCell [(''attribute'', 2)],
             ScalarCell (1::nat)]"
  let ?s' = "?s @ [DictCell [(''attribute'', 2)], DictCell [(''my'', 3)]]"
  note T = vivified_to_dict_materializes
    [where v = ?v and path = "[''my'', ''attribute'']" and s = ?s and a = 0 and depth = 3
       and r = "Inr 4" and s' = ?s' and a' = 4]
  note T1 = T [THEN conjunct1, THEN mp]
  note T2 = T [THEN conjunct2, THEN conjunct1, THEN mp]
  note T6 = T [THEN conjunct2, THEN conjunct2, THEN conjunct2, THEN conjunct2,
               THEN conjunct2, THEN conjunct1, THEN mp]
  note T8 = T [THEN conjunct2, THEN conjunct2, THEN conjunct2, THEN conjunct2,
               THEN conjunct2, THEN conjunct2, THEN conjunct2, THEN conjunct1, THEN mp]
  have viv: "vivified ?v" by (simp add: fmpred_iff)
  have run: "vivified_to_dict_at 3 ?s 0 = (Inr 4, ?s')"
    using vivified_to_dict_at_example [of "1::nat"] by simp
  have h: "holds ?s 0 ?v" by (rule holds_example)
  have p: "plain (vivified_to_dict ?v)" using viv by (rule T1)
  have "lookup_path (vivified_to_dict ?v) [''my'', ''attribute'']
          = map_option vivified_to_dict (lookup_path ?v [''my'', ''attribute''])"
    using viv by (rule T2)
  then have l: "lookup_path (vivified_to_dict ?v) [''my'', ''attribute''] = Some (Scalar 1)"
    by simp
  have "\<exists>new. ?s' = ?s @ new" using run by (rule T6)
  have h': "holds ?s' 4 (vivified_to_dict ?v) \<and> holds ?s' 0 ?v"
    using conjI [OF h run] by (rule T8)
  show ?thesis
    by (intro conjI) (rule viv, rule p, rule l, rule run, rule h,
        rule h' [THEN conjunct1], rule h' [THEN conjunct2])
qed

theorem vivified_to_dict_materializes_counterexample:
  "\<not> plain (vivified_to_dict
      (DefaultDict (fmupd ''c'' (Dict (fmupd ''d'' (DefaultDict fmempty) fmempty)) fmempty)
         :: (string, nat) pyobj))"
  by (auto simp: fmpred_iff)

subsection \<open>\<^verbatim>\<open>multi_replace\<close>\<close>

lemma multi_replace_append:
  "multi_replace sub name (ps @ qs) =
     (case multi_replace sub name ps of
        Inl e \<Rightarrow> Inl e
      | Inr mid \<Rightarrow> multi_replace sub mid qs)"
  by (induction ps arbitrary: name) (auto split: sum.splits)

text \<open>
  Claim C5. Whatever \<^verbatim>\<open>re.sub\<close> computes, \<^verbatim>\<open>multi_replace\<close> applies the pairs in
  the order of iteration, each to the text the pairs before it produced: one pair is one
  call of \<^verbatim>\<open>re.sub\<close>, and a list of pairs followed by another is the first list's
  result fed to the second. With the model of \<^verbatim>\<open>re.sub\<close>, every match in the text is
  replaced, the docstring's example evaluates as documented, a later pattern matches
  text that an earlier replacement wrote, and the order of the pairs matters.
\<close>

theorem multi_replace_sequential:
  "multi_replace sub name [] = Inr name \<and>
   multi_replace sub name [(pattern, substitution)] = sub pattern substitution name \<and>
   multi_replace sub name (ps @ qs) =
     (case multi_replace sub name ps of
        Inl e \<Rightarrow> Inl e
      | Inr mid \<Rightarrow> multi_replace sub mid qs) \<and>
   multi_replace re_sub ''Canon Luke Skywalker was weak and powerless.''
     [(''Canon'', ''Legends''), (''weak'', ''strong''), (CHR 0x5C # ''w+less'', ''powerful'')]
     = Inr ''Legends Luke Skywalker was strong and powerful.'' \<and>
   re_sub ''a'' ''b'' ''banana'' = Inr ''bbnbnb'' \<and>
   multi_replace re_sub ''a'' [(''a'', ''b''), (''b'', ''c'')] = Inr ''c'' \<and>
   multi_replace re_sub ''a'' [(''b'', ''c''), (''a'', ''b'')] = Inr ''b''"
proof (intro conjI)
  show "multi_replace sub name [(pattern, substitution)] = sub pattern substitution name"
    by (simp split: sum.splits)
next
  show "multi_replace sub name (ps @ qs) =
          (case multi_replace sub name ps of
             Inl e \<Rightarrow> Inl e
           | Inr mid \<Rightarrow> multi_replace sub mid qs)"
    by (rule multi_replace_append)
next
  show "multi_replace re_sub ''Canon Luke Skywalker was weak and powerless.''
          [(''Canon'', ''Legends''), (''weak'', ''strong''), (CHR 0x5C # ''w+less'', ''powerful'')]
          = Inr ''Legends Luke Skywalker was strong and powerful.''"
    by code_simp
next
  show "re_sub ''a'' ''b'' ''banana'' = Inr ''bbnbnb''"
    by code_simp
next
  show "multi_replace re_sub ''a'' [(''a'', ''b''), (''b'', ''c'')] = Inr ''c''"
    by code_simp
next
  show "multi_replace re_sub ''a'' [(''b'', ''c''), (''a'', ''b'')] = Inr ''b''"
    by code_simp
qed simp

subsection \<open>\<^verbatim>\<open>message_box\<close>\<close>

lemma wrap_each_invalid_width:
  "width \<le> 0 \<Longrightarrow> lines \<noteq> [] \<Longrightarrow> wrap_each split width lines = Inl ValueError"
  by (cases lines) (simp_all add: wrap_def wrap_chunks_def)

lemma wrap_each_returns:
  "0 < width \<Longrightarrow> \<exists>wrapped. wrap_each split width lines = Inr wrapped"
  by (induction lines) (auto simp: wrap_def wrap_chunks_def)

lemma message_box_returns_True:
  assumes "2 * padding + 2 < width"
  shows "fst (message_box split message width padding print_callable out) = Inr True"
proof -
  from assms have "0 < width - padding * 2 - 2" by simp
  then obtain wrapped where
    "wrap_each split (width - padding * 2 - 2) (str_split CHR 0x0A message) = Inr wrapped"
    using wrap_each_returns by blast
  then show ?thesis by (simp add: message_box_def Let_def)
qed

lemma message_box_raises:
  assumes "width \<le> 2 * padding + 2"
  shows "message_box split message width padding print_callable out =
           (Inl ValueError,
            print_callable (inner width padding '''') (print_callable (str_mul ''='' width) out))"
proof -
  from assms have "width - padding * 2 - 2 \<le> 0" by simp
  then have "wrap_each split (width - padding * 2 - 2) (str_split CHR 0x0A message)
               = Inl ValueError"
    by (intro wrap_each_invalid_width) simp_all
  then show ?thesis by (simp add: message_box_def Let_def)
qed

lemma message_box_empty:
  assumes "split [] = []" and "2 * padding + 2 < width"
  shows "message_box split [] width padding print_callable out =
           (Inr True,
            print_callable (str_mul ''='' width)
              (print_callable (inner width padding '''')
                (print_callable (inner width padding '' '')
                  (print_callable (inner width padding '''')
                    (print_callable (str_mul ''='' width) out)))))"
proof -
  from assms(2) have "\<not> width - padding * 2 - 2 \<le> 0" by simp
  with assms(1) have "wrap_each split (width - padding * 2 - 2) (str_split CHR 0x0A [])
                        = Inr [[]]"
    by (simp add: wrap_def wrap_chunks_def expandtabs_def)
  then show ?thesis
    by (simp add: message_box_def Let_def chained_def expandtabs_def)
qed

text \<open>
  Claim C3, as the code has it. With an empty message and \<open>width > 2 * padding + 2\<close>,
  \<^verbatim>\<open>message_box\<close> prints five lines: the top border, a blank padded row, the row of
  the single space that stands for the empty message, a blank padded row and the bottom
  border. So there are three rows between the borders.
\<close>

theorem message_box_empty_message:
  "(split [] = [] \<and> 2 * padding + 2 < width \<longrightarrow>
      message_box split [] width padding print_callable out =
        (Inr True,
         print_callable (str_mul ''='' width)
           (print_callable (inner width padding '''')
             (print_callable (inner width padding '' '')
               (print_callable (inner width padding '''')
                 (print_callable (str_mul ''='' width) out)))))) \<and>
   (2 * padding + 2 < width \<longrightarrow>
      message_box split_runs [] width padding print [] =
        (Inr True,
         [str_mul ''='' width, inner width padding '''', inner width padding '' '',
          inner width padding '''', str_mul ''='' width]))"
proof (intro conjI impI)
  assume "split [] = [] \<and> 2 * padding + 2 < width"
  then show "message_box split [] width padding print_callable out =
        (Inr True,
         print_callable (str_mul ''='' width)
           (print_callable (inner width padding '''')
             (print_callable (inner width padding '' '')
               (print_callable (inner width padding '''')
                 (print_callable (str_mul ''='' width) out)))))"
    using message_box_empty [of split padding width print_callable out] by blast
next
  assume "2 * padding + 2 < width"
  then show "message_box split_runs [] width padding print [] =
        (Inr True,
         [str_mul ''='' width, inner width padding '''', inner width padding '' '',
          inner width padding '''', str_mul ''='' width])"
    using message_box_empty [of split_runs padding width print "[]"]
    by (simp add: print_def)
qed

theorem message_box_empty_message_witness:
  "split_runs [] = [] \<and> 2 * 3 + 2 < (79::int) \<and>
   message_box split_runs [] 79 3 print [] =
     (Inr True,
      [str_mul ''='' 79, inner 79 3 '''', inner 79 3 '' '', inner 79 3 '''', str_mul ''='' 79])"
proof -
  have h: "split_runs [] = [] \<and> 2 * 3 + 2 < (79::int)" by simp
  with message_box_empty_message [of split_runs 3 79 print "[]"]
  show ?thesis by (simp add: print_def)
qed

theorem message_box_empty_message_counterexample:
  "\<not> (\<exists>top rows bottom.
        snd (message_box split_runs [] 79 3 print []) = top # rows @ [bottom] \<and>
        length rows = 4)"
proof
  assume "\<exists>top rows bottom.
        snd (message_box split_runs [] 79 3 print []) = top # rows @ [bottom] \<and>
        length rows = 4"
  then obtain top rows bottom where
    "snd (message_box split_runs [] 79 3 print []) = top # rows @ [bottom]" "length rows = 4"
    by blast
  then have "length (snd (message_box split_runs [] 79 3 print [])) = 6" by simp
  moreover have "length (snd (message_box split_runs [] 79 3 print [])) = 5"
    using message_box_empty [of split_runs 3 79 print "[]"] by (simp add: print_def)
  ultimately show False by simp
qed

text \<open>
  Claim C9, as the code has it. When \<open>width > 2 * padding + 2\<close>, \<^verbatim>\<open>message_box\<close>
  returns \<^verbatim>\<open>True\<close> for every message and every \<^verbatim>\<open>print_callable\<close>. Otherwise the
  width given to the text wrapper is not positive: \<^verbatim>\<open>wrap\<close> raises \<^verbatim>\<open>ValueError\<close>
  when the top border and the first blank row have been printed.
\<close>

theorem message_box_returns_True_when_wide:
  "(2 * padding + 2 < width \<longrightarrow>
      fst (message_box split message width padding print_callable out) = Inr True) \<and>
   (width \<le> 2 * padding + 2 \<longrightarrow>
      message_box split message width padding print_callable out =
        (Inl ValueError,
         print_callable (inner width padding '''') (print_callable (str_mul ''='' width) out)))"
  using message_box_returns_True [of padding width split message print_callable out]
    message_box_raises [of width padding split message print_callable out]
  by blast

theorem message_box_returns_True_when_wide_witness:
  "2 * 3 + 2 < (9::int) \<and> fst (message_box split_runs ''hello'' 9 3 print []) = Inr True \<and>
   (8::int) \<le> 2 * 3 + 2 \<and>
   message_box split_runs ''hello'' 8 3 print [] = (Inl ValueError, [''========'', ''*      *''])"
proof -
  have a: "2 * 3 + 2 < (9::int)" and b: "(8::int) \<le> 2 * 3 + 2" by simp_all
  have i: "[inner 8 3 ''''] = [''*      *'']" and s: "str_mul ''='' 8 = ''========''"
    by (simp_all add: inner_def str_mul_def eval_nat_numeral)
  from a b i s
    message_box_returns_True_when_wide [of 3 9 split_runs "''hello''" print "[]"]
    message_box_returns_True_when_wide [of 3 8 split_runs "''hello''" print "[]"]
  show ?thesis by (simp add: print_def)
qed

theorem message_box_returns_True_when_wide_counterexample:
  "fst (message_box split_runs ''hello'' 8 3 print []) = Inl ValueError"
  using message_box_raises [of 8 3 split_runs "''hello''" print "[]"] by simp

text \<open>The model prints the docstring's second example as documented.\<close>

lemma message_box_docstring_example:
  "message_box split_runs
     ''Lorem ipsum dolor sit amet, consectetur adipiscing elit, sed do eiusmod tempor incididunt ut labore et dolore magna aliqua.''
     60 3 print [] =
   (Inr True,
    [''============================================================'',
     ''*                                                          *'',
     ''*   Lorem ipsum dolor sit amet, consectetur adipiscing     *'',
     ''*   elit, sed do eiusmod tempor incididunt ut labore et    *'',
     ''*   dolore magna aliqua.                                   *'',
     ''*                                                          *'',
     ''============================================================''])"
  by code_simp

end
